theory Spec2Isabelle
  imports Complex_Main
begin

section \<open>Data model of the background session store\<close>

text \<open>
  The store is the class \<^verbatim>\<open>BackgroundSessionStore\<close>. The types it imports
  (\<^verbatim>\<open>../types\<close>, \<^verbatim>\<open>../types/acp\<close>) are given by the fields the store reads and writes;
  the values of the helpers it imports from \<^verbatim>\<open>./protocol\<close> and \<^verbatim>\<open>./acp-adapter\<close> are
  carried by the events. Opaque JSON payloads are strings. An optional property of a
  JavaScript object is an \<open>option\<close>, with \<open>None\<close> for \<^verbatim>\<open>undefined\<close> or \<^verbatim>\<open>null\<close>.
\<close>

type_synonym json = string

text \<open>
  Message texts (visible text, reasoning, error details) are JavaScript strings that the
  store tests with \<^verbatim>\<open>trim()\<close>: sequences of UTF-16 code units, each a number below
  \<open>65536\<close>. Identifiers and names, which the store only compares and concatenates, are
  strings of 8-bit characters; \<open>utf16\<close> reads such a string as a text.
\<close>

type_synonym code_unit = nat
type_synonym ustring = "code_unit list"

definition utf16 :: "string \<Rightarrow> ustring" where
  "utf16 s = map of_char s"

type_synonym image = json

subsection \<open>Numbers\<close>

text \<open>
  A JavaScript number is an IEEE-754 double: not-a-number, an infinity (\<open>True\<close> for the
  negative one), or a finite value \<open>Finite s m e\<close>, which is \<open>m * 2 ^ e\<close>, negated when \<open>s\<close>
  is set. In a double the significand \<open>m\<close> is below \<open>2 ^ 53\<close>, the exponent lies between
  \<open>-1074\<close> and \<open>971\<close>, and a significand below \<open>2 ^ 52\<close> (a zero or a subnormal) goes with
  the exponent \<open>-1074\<close>: every finite double has exactly one such form.
\<close>

datatype number = NaN | Infinity bool | Finite bool nat int

fun is_double :: "number \<Rightarrow> bool" where
  "is_double (Finite s m e) =
     (m < 2 ^ 53 \<and> - 1074 \<le> e \<and> e \<le> 971 \<and> (2 ^ 52 \<le> m \<or> e = - 1074))"
| "is_double x = True"

definition pos_zero :: number where
  "pos_zero = Finite False 0 (- 1074)"

text \<open>
  Every finite double is a whole number of units of \<open>2 ^ -1074\<close>: \<open>units\<close> is its magnitude
  and \<open>signed_units\<close> its value in that unit.
\<close>

definition units :: "nat \<Rightarrow> int \<Rightarrow> nat" where
  "units m e = m * 2 ^ nat (e + 1074)"

definition signed_units :: "bool \<Rightarrow> nat \<Rightarrow> int \<Rightarrow> int" where
  "signed_units s m e = (if s then - int (units m e) else int (units m e))"

text \<open>The number of binary digits of a natural number.\<close>

fun bits :: "nat \<Rightarrow> nat" where
  "bits n = (if n = 0 then 0 else 1 + bits (n div 2))"

declare bits.simps [simp del]

text \<open>The quotient \<open>p / q\<close> rounded to the nearest natural number, a tie going to the even one.\<close>

definition round_half_even :: "nat \<Rightarrow> nat \<Rightarrow> nat" where
  "round_half_even p q =
     (let d = p div q; r = p mod q
      in if 2 * r < q then d
         else if q < 2 * r then d + 1
         else if even d then d else d + 1)"

text \<open>
  Rounding to the nearest double, ties to even, of the magnitude \<open>p / q\<close> units with the
  sign \<open>s\<close>: the quotient has \<open>bits (p div q)\<close> digits before the point, of which a double
  keeps the first 53; a significand rounded up to \<open>2 ^ 53\<close> moves to the next exponent;
  beyond the largest exponent the result is an infinity.
\<close>

definition round_double :: "bool \<Rightarrow> nat \<Rightarrow> nat \<Rightarrow> number" where
  "round_double s p q =
     (let k = bits (p div q) - 53;
          n = round_half_even p (q * 2 ^ k);
          k' = (if n = 2 ^ 53 then Suc k else k);
          n' = (if n = 2 ^ 53 then 2 ^ 52 else n)
      in if 2045 < k' then Infinity s else Finite s n' (int k' - 1074))"

text \<open>The number a decimal literal with the digits \<open>d\<close>, \<open>k\<close> of them after the point, denotes.\<close>

definition decimal :: "nat \<Rightarrow> nat \<Rightarrow> number" where
  "decimal d k = round_double False (d * 2 ^ 1074) (10 ^ k)"

text \<open>Unary minus.\<close>

fun negated :: "number \<Rightarrow> number" where
  "negated NaN = NaN"
| "negated (Infinity s) = Infinity (\<not> s)"
| "negated (Finite s m e) = Finite (\<not> s) m e"

text \<open>
  The sum of two numbers: the exact sum of two finite doubles, rounded. A zero sum is
  negative only when both operands are negative zeros.
\<close>

fun js_add :: "number \<Rightarrow> number \<Rightarrow> number" where
  "js_add NaN y = NaN"
| "js_add (Infinity s) NaN = NaN"
| "js_add (Infinity s) (Infinity t) = (if s = t then Infinity s else NaN)"
| "js_add (Infinity s) (Finite t n f) = Infinity s"
| "js_add (Finite s m e) NaN = NaN"
| "js_add (Finite s m e) (Infinity t) = Infinity t"
| "js_add (Finite s m e) (Finite t n f) =
     (let z = signed_units s m e + signed_units t n f
      in if z = 0 then Finite (s \<and> t) 0 (- 1074)
         else round_double (z < 0) (nat \<bar>z\<bar>) 1)"

text \<open>The comparison \<^verbatim>\<open>x <= y\<close>: false when an operand is not a number.\<close>

fun js_le :: "number \<Rightarrow> number \<Rightarrow> bool" where
  "js_le NaN y = False"
| "js_le (Infinity s) NaN = False"
| "js_le (Infinity s) (Infinity t) = (s \<or> \<not> t)"
| "js_le (Infinity s) (Finite t n f) = s"
| "js_le (Finite s m e) NaN = False"
| "js_le (Finite s m e) (Infinity t) = (\<not> t)"
| "js_le (Finite s m e) (Finite t n f) = (signed_units s m e \<le> signed_units t n f)"

text \<open>A finite double that is not negative.\<close>

fun nonnegative :: "number \<Rightarrow> bool" where
  "nonnegative (Finite s m e) = (is_double (Finite s m e) \<and> (m = 0 \<or> \<not> s))"
| "nonnegative x = False"

subsection \<open>Messages and sessions\<close>

datatype role = User | Assistant | ToolCall | System

datatype subagent_status = Running | Completed

record tool_result =
  status :: "string option"
  agentId :: "string option"
  totalDurationMs :: "nat option"
  totalTokens :: "nat option"
  rest :: json

record subagent_step =
  step_toolName :: string
  step_toolInput :: json
  step_toolUseId :: string
  step_toolResult :: "tool_result option"

record ui_message =
  id_msg :: string
  role :: role
  content :: ustring
  thinking :: "ustring option"
  thinkingComplete :: "bool option"
  isStreaming :: "bool option"
  timestamp :: nat
  toolName :: "string option"
  toolInput :: "json option"
  toolResult :: "tool_result option"
  toolError :: "bool option"
  subagentSteps :: "subagent_step list option"
  subagentStatus :: "subagent_status option"
  subagentId :: "string option"
  subagentDurationMs :: "nat option"
  subagentTokens :: "nat option"
  isError :: "bool option"
  images :: "image list option"

record session_info =
  sessionId :: string
  model :: string
  cwd :: string
  tools :: "string list"
  version :: string

type_synonym permission_request = json
type_synonym acp_permission_event = json

record background_session_state =
  messages :: "ui_message list"
  isProcessing :: bool
  isConnected :: bool
  sessionInfo :: "session_info option"
  totalCost :: number
  pendingPermission :: "permission_request option"
  rawAcpPermission :: "acp_permission_event option"

record internal_state = background_session_state +
  parentToolMap :: "string \<rightharpoonup> string"
  currentStreamingMsgId :: "string option"

text \<open>
  The two callbacks \<^verbatim>\<open>onProcessingChange\<close> and \<^verbatim>\<open>onPermissionRequest\<close> are external;
  the store records each invocation, in order.
\<close>

datatype notification =
  ProcessingChange string bool
  | PermissionRequested string permission_request

record store =
  sessions :: "string \<rightharpoonup> internal_state"
  idCounter :: nat
  notifications :: "notification list"

definition empty_store :: store where
  "empty_store = \<lparr>sessions = Map.empty, idCounter = 0, notifications = []\<rparr>"

subsection \<open>JavaScript truthiness, trimming, decimal rendering\<close>

definition truthy_str :: "'a list option \<Rightarrow> bool" where
  "truthy_str x = (case x of None \<Rightarrow> False | Some s \<Rightarrow> s \<noteq> [])"

definition truthy_flag :: "bool option \<Rightarrow> bool" where
  "truthy_flag x = (x = Some True)"

text \<open>
  \<^verbatim>\<open>String.prototype.trim\<close> strips the white space and the line terminators of
  ECMAScript: TAB, LF, VT, FF, CR, the space, the no-break space U+00A0, the other space
  separators U+1680, U+2000 to U+200A, U+202F, U+205F and U+3000, the line and paragraph
  separators U+2028 and U+2029, and the byte-order mark U+FEFF. Each is one code unit.
  \<^verbatim>\<open>!s.trim()\<close> holds when every code unit of \<open>s\<close> is one of them.
\<close>

definition is_ws :: "code_unit \<Rightarrow> bool" where
  "is_ws c = (c \<in> set [0x0009, 0x000A, 0x000B, 0x000C, 0x000D, 0x0020, 0x00A0, 0x1680,
                          0x2000, 0x2001, 0x2002, 0x2003, 0x2004, 0x2005, 0x2006, 0x2007,
                          0x2008, 0x2009, 0x200A, 0x2028, 0x2029, 0x202F, 0x205F, 0x3000,
                          0xFEFF])"

definition blank :: "ustring \<Rightarrow> bool" where
  "blank s = list_all is_ws s"

definition digit :: "nat \<Rightarrow> char" where
  "digit n = ''0123456789'' ! n"

fun dec :: "nat \<Rightarrow> string" where
  "dec n = (if n < 10 then [digit n] else dec (n div 10) @ [digit (n mod 10)])"

declare dec.simps [simp del]

text \<open>\<^verbatim>\<open>`${prefix}-${Date.now()}-${this.idCounter++}`\<close>, the counter being passed in.\<close>

definition nextId :: "string \<Rightarrow> nat \<Rightarrow> nat \<Rightarrow> string" where
  "nextId prefix now counter = prefix @ ''-'' @ dec now @ ''-'' @ dec counter"

fun join :: "'a list \<Rightarrow> 'a list list \<Rightarrow> 'a list" where
  "join sep [] = []"
| "join sep [x] = x"
| "join sep (x # y # ys) = x @ sep @ join sep (y # ys)"

definition startsWith :: "string \<Rightarrow> string \<Rightarrow> bool" where
  "startsWith s p = (take (length p) s = p)"

subsection \<open>Array helpers\<close>

text \<open>
  \<^verbatim>\<open>find\<close> and \<^verbatim>\<open>findLast\<close> return a reference to an element that the caller then
  mutates in place; the model returns its index.
\<close>

fun find_index :: "('a \<Rightarrow> bool) \<Rightarrow> 'a list \<Rightarrow> nat option" where
  "find_index P [] = None"
| "find_index P (x # xs) = (if P x then Some 0 else map_option Suc (find_index P xs))"

fun findLast_index :: "('a \<Rightarrow> bool) \<Rightarrow> 'a list \<Rightarrow> nat option" where
  "findLast_index P [] = None"
| "findLast_index P (x # xs) =
     (case findLast_index P xs of
        Some i \<Rightarrow> Some (Suc i)
      | None \<Rightarrow> (if P x then Some 0 else None))"

section \<open>Events\<close>

text \<open>
  A clock gives the readings of \<^verbatim>\<open>Date.now()\<close> made while one event is handled: reading
  number \<open>k\<close> is \<open>now k\<close>, every call site having its own number.
\<close>

type_synonym clock = "nat \<Rightarrow> nat"

definition fixed_clock :: "nat \<Rightarrow> clock" where
  "fixed_clock t k = t"

datatype delta = TextDelta ustring | ThinkingDelta ustring | OtherDelta

datatype stream_evt =
  MessageStart
  | ContentBlockDelta delta
  | MessageDelta
  | MessageStop
  | OtherStream

record tool_use =
  tu_id :: string
  tu_name :: string
  tu_input :: json

text \<open>
  An assistant event: \<open>textContent\<close> and \<open>thinkingContent\<close> are the values of
  \<^verbatim>\<open>extractTextContent(evt.message.content)\<close> and \<^verbatim>\<open>extractThinkingContent(...)\<close>,
  \<open>tool_uses\<close> the blocks of type \<^verbatim>\<open>tool_use\<close> of the content, in order.
\<close>

record assistant_event =
  uuid :: string
  textContent :: ustring
  thinkingContent :: ustring
  tool_uses :: "tool_use list"

text \<open>
  The first content block of a user event when it is a \<^verbatim>\<open>tool_result\<close>; \<open>resultMeta\<close> is
  the value of \<^verbatim>\<open>normalizeToolResult(evt.tool_use_result, toolResult.content)\<close>.
\<close>

record tool_result_event =
  tool_use_id :: string
  resultMeta :: "tool_result option"

record system_event =
  sys_subtype :: "string option"
  init_session_id :: string
  init_model :: string
  init_cwd :: string
  init_tools :: "string list"
  claude_code_version :: string

record result_event =
  total_cost_usd :: "number option"
  is_error :: bool
  res_subtype :: "string option"
  errors :: "ustring list option"
  result :: "ustring option"

datatype claude_body =
  SystemEvt system_event
  | StreamEvt stream_evt
  | AssistantEvt assistant_event
  | UserEvt "tool_result_event option"
  | ResultEvt result_event
  | OtherEvt

text \<open>\<open>ev_parentId\<close> is the value of \<^verbatim>\<open>getParentId(event)\<close>.\<close>

record claude_event =
  ev_sessionId :: "string option"
  ev_parentId :: "string option"
  body :: claude_body

datatype acp_content = TextContent ustring | OtherContent

text \<open>
  A tool-call open or update: \<open>tc_toolName\<close>, \<open>tc_toolInput\<close> and \<open>tc_result\<close> are the
  values of \<^verbatim>\<open>deriveToolName(update.title, update.kind)\<close>,
  \<^verbatim>\<open>acpNormalizeToolInput(update.rawInput)\<close> and
  \<^verbatim>\<open>acpNormalizeToolResult(update.rawOutput, update.content)\<close>.
\<close>

record acp_tool_call =
  toolCallId :: string
  tc_status :: "string option"
  tc_toolName :: string
  tc_toolInput :: json
  tc_result :: "tool_result option"

datatype acp_update =
  AgentMessageChunk "acp_content option"
  | AgentThoughtChunk "acp_content option"
  | ToolCallOpen acp_tool_call
  | ToolCallUpdate acp_tool_call
  | UsageUpdate "number option"
  | OtherUpdate

record acp_event =
  acp_sessionId :: "string option"
  update :: acp_update

section \<open>The store's operations\<close>

definition empty_state :: internal_state where
  "empty_state = \<lparr>messages = [], isProcessing = False, isConnected = False,
     sessionInfo = None, totalCost = pos_zero, pendingPermission = None, rawAcpPermission = None,
     parentToolMap = Map.empty, currentStreamingMsgId = None\<rparr>"

definition getOrCreate :: "string \<Rightarrow> store \<Rightarrow> internal_state" where
  "getOrCreate sid st = (case sessions st sid of Some s \<Rightarrow> s | None \<Rightarrow> empty_state)"

definition formatResultError :: "string option \<Rightarrow> ustring \<Rightarrow> ustring" where
  "formatResultError subtype detail =
     (if subtype = Some ''error_max_turns'' then
        utf16 ''Session reached the maximum number of turns. Start a new session to continue.''
      else if subtype = Some ''error_max_budget_usd'' then
        utf16 ''Session exceeded the cost budget limit.''
      else if subtype = Some ''error_max_structured_output_retries'' then
        utf16 ''Structured output failed after maximum retries.''
      else if subtype = Some ''error_during_execution'' then
        (if detail \<noteq> [] then detail else utf16 ''An error occurred during execution.'')
      else (if detail \<noteq> [] then detail else utf16 ''An unexpected error occurred.''))"

text \<open>A message object with only the properties every message has.\<close>

definition base_msg :: "string \<Rightarrow> role \<Rightarrow> ustring \<Rightarrow> nat \<Rightarrow> ui_message" where
  "base_msg i r c t = \<lparr>id_msg = i, role = r, content = c, thinking = None,
     thinkingComplete = None, isStreaming = None, timestamp = t, toolName = None,
     toolInput = None, toolResult = None, toolError = None, subagentSteps = None,
     subagentStatus = None, subagentId = None, subagentDurationMs = None,
     subagentTokens = None, isError = None, images = None\<rparr>"

definition streaming_msg :: "string \<Rightarrow> nat \<Rightarrow> ui_message" where
  "streaming_msg i t = (base_msg i Assistant [] t)\<lparr>isStreaming := Some True\<rparr>"

definition has_id :: "string \<Rightarrow> ui_message \<Rightarrow> bool" where
  "has_id i m = (id_msg m = i)"

definition current_target :: "internal_state \<Rightarrow> nat option" where
  "current_target s =
     (case currentStreamingMsgId s of
        None \<Rightarrow> None
      | Some c \<Rightarrow> find_index (has_id c) (messages s))"

definition streaming_assistant :: "ui_message \<Rightarrow> bool" where
  "streaming_assistant m = (role m = Assistant \<and> truthy_flag (isStreaming m))"

definition empty_turn :: "ui_message \<Rightarrow> bool" where
  "empty_turn m = (blank (content m) \<and> \<not> truthy_str (thinking m))"

definition finish_thinking :: "ui_message \<Rightarrow> ui_message" where
  "finish_thinking m =
     (if truthy_str (thinking m) \<and> \<not> truthy_flag (thinkingComplete m)
      then m\<lparr>thinkingComplete := Some True\<rparr> else m)"

subsection \<open>Protocol A: stream events\<close>

text \<open>The second component is the store's \<^verbatim>\<open>idCounter\<close> after the call.\<close>

definition handleStreamEvent ::
  "clock \<Rightarrow> nat \<Rightarrow> stream_evt \<Rightarrow> internal_state \<Rightarrow> internal_state \<times> nat" where
  "handleStreamEvent now cnt ev s =
     (case ev of
        MessageStart \<Rightarrow>
          (let i = nextId ''stream-bg'' (now 0) cnt in
           (s\<lparr>messages := messages s @ [streaming_msg i (now 1)],
              currentStreamingMsgId := Some i\<rparr>, Suc cnt))
      | ContentBlockDelta d \<Rightarrow>
          (if \<not> truthy_str (currentStreamingMsgId s) then (s, cnt)
           else case current_target s of
             None \<Rightarrow> (s, cnt)
           | Some i \<Rightarrow>
               (let m = messages s ! i in
                case d of
                  TextDelta t \<Rightarrow>
                    (let m1 = finish_thinking m in
                     (s\<lparr>messages := (messages s)[i := m1\<lparr>content := content m1 @ t\<rparr>]\<rparr>, cnt))
                | ThinkingDelta t \<Rightarrow>
                    (s\<lparr>messages := (messages s)
                        [i := m\<lparr>thinking := Some ((case thinking m of None \<Rightarrow> [] | Some x \<Rightarrow> x) @ t)\<rparr>]\<rparr>,
                     cnt)
                | OtherDelta \<Rightarrow> (s, cnt)))
      | MessageDelta \<Rightarrow>
          (if \<not> truthy_str (currentStreamingMsgId s) then (s, cnt)
           else case current_target s of
             None \<Rightarrow> (s\<lparr>currentStreamingMsgId := None\<rparr>, cnt)
           | Some i \<Rightarrow>
               (let m = messages s ! i in
                if empty_turn m
                then (s\<lparr>messages := filter (\<lambda>x. id_msg x \<noteq> id_msg m) (messages s),
                        currentStreamingMsgId := None\<rparr>, cnt)
                else (s\<lparr>messages := (messages s)[i := m\<lparr>isStreaming := Some False\<rparr>],
                        currentStreamingMsgId := None\<rparr>, cnt)))
      | MessageStop \<Rightarrow> (s\<lparr>currentStreamingMsgId := None\<rparr>, cnt)
      | OtherStream \<Rightarrow> (s, cnt))"

subsection \<open>Subagent events\<close>

definition append_step :: "string \<Rightarrow> tool_use \<Rightarrow> ui_message \<Rightarrow> ui_message" where
  "append_step taskMsgId b m =
     (if id_msg m \<noteq> taskMsgId then m
      else m\<lparr>subagentSteps :=
             Some ((case subagentSteps m of None \<Rightarrow> [] | Some ss \<Rightarrow> ss) @
                   [\<lparr>step_toolName = tu_name b, step_toolInput = tu_input b,
                     step_toolUseId = tu_id b, step_toolResult = None\<rparr>])\<rparr>)"

definition attach_step_result ::
  "string \<Rightarrow> string \<Rightarrow> tool_result option \<Rightarrow> ui_message \<Rightarrow> ui_message" where
  "attach_step_result taskMsgId toolUseId r m =
     (if id_msg m \<noteq> taskMsgId then m
      else m\<lparr>subagentSteps :=
             Some (map (\<lambda>st. if step_toolUseId st = toolUseId
                              then st\<lparr>step_toolResult := r\<rparr> else st)
                       (case subagentSteps m of None \<Rightarrow> [] | Some ss \<Rightarrow> ss))\<rparr>)"

definition handleSubagentEvent ::
  "internal_state \<Rightarrow> claude_body \<Rightarrow> string \<Rightarrow> internal_state" where
  "handleSubagentEvent s b parentId =
     (case parentToolMap s parentId of
        None \<Rightarrow> s
      | Some taskMsgId \<Rightarrow>
          if taskMsgId = [] then s
          else case b of
            AssistantEvt e \<Rightarrow>
              fold (\<lambda>blk s'. s'\<lparr>messages := map (append_step taskMsgId blk) (messages s')\<rparr>)
                   (tool_uses e) s
          | UserEvt (Some tr) \<Rightarrow>
              s\<lparr>messages :=
                  map (attach_step_result taskMsgId (tool_use_id tr) (resultMeta tr)) (messages s)\<rparr>
          | _ \<Rightarrow> s)"

subsection \<open>Protocol A: top-level events\<close>

definition reconcile_target :: "internal_state \<Rightarrow> nat option" where
  "reconcile_target s =
     (if truthy_str (currentStreamingMsgId s) then current_target s
      else findLast_index streaming_assistant (messages s))"

definition reconcile_assistant :: "nat \<Rightarrow> assistant_event \<Rightarrow> internal_state \<Rightarrow> internal_state" where
  "reconcile_assistant t e s =
     (case reconcile_target s of
        Some i \<Rightarrow>
          (let m = messages s ! i;
               m1 = m\<lparr>content := (if textContent e \<noteq> [] then textContent e else content m)\<rparr>;
               m2 = (if thinkingContent e \<noteq> []
                     then m1\<lparr>thinking := Some (thinkingContent e), thinkingComplete := Some True\<rparr>
                     else m1);
               ms = (messages s)[i := m2]
           in if empty_turn m2
              then s\<lparr>messages := filter (\<lambda>x. id_msg x \<noteq> id_msg m2) ms\<rparr>
              else s\<lparr>messages := ms\<rparr>)
      | None \<Rightarrow>
          (if textContent e \<noteq> [] \<or> thinkingContent e \<noteq> []
           then s\<lparr>messages := messages s @
                  [(base_msg (''assistant-'' @ uuid e) Assistant (textContent e) t)
                     \<lparr>thinking := (if thinkingContent e \<noteq> [] then Some (thinkingContent e) else None),
                      thinkingComplete := (if thinkingContent e \<noteq> [] then Some True else None),
                      isStreaming := Some False\<rparr>]\<rparr>
           else s))"

definition tool_msg :: "nat \<Rightarrow> tool_use \<Rightarrow> ui_message" where
  "tool_msg t b =
     (let m = (base_msg (''tool-'' @ tu_id b) ToolCall [] t)
                \<lparr>toolName := Some (tu_name b), toolInput := Some (tu_input b)\<rparr>
      in if tu_name b = ''Task''
         then m\<lparr>subagentSteps := Some [], subagentStatus := Some Running\<rparr>
         else m)"

definition push_tool_use :: "nat \<Rightarrow> tool_use \<Rightarrow> internal_state \<Rightarrow> internal_state" where
  "push_tool_use t b s =
     (let msgId = ''tool-'' @ tu_id b in
      if list_ex (has_id msgId) (messages s) then s
      else (let s1 = s\<lparr>messages := messages s @ [tool_msg t b]\<rparr>
            in if tu_name b = ''Task''
               then s1\<lparr>parentToolMap := (parentToolMap s1)(tu_id b \<mapsto> msgId)\<rparr>
               else s1))"

fun push_tool_uses :: "clock \<Rightarrow> nat \<Rightarrow> tool_use list \<Rightarrow> internal_state \<Rightarrow> internal_state" where
  "push_tool_uses now k [] s = s"
| "push_tool_uses now k (b # bs) s = push_tool_uses now (Suc k) bs (push_tool_use (now k) b s)"

definition attach_tool_result :: "tool_result_event \<Rightarrow> ui_message \<Rightarrow> ui_message" where
  "attach_tool_result tr m =
     (if id_msg m \<noteq> ''tool-'' @ tool_use_id tr then m
      else case resultMeta tr of
        Some r \<Rightarrow>
          (if toolName m = Some ''Task''
           then m\<lparr>toolResult := Some r, subagentStatus := Some Completed,
                  subagentId := agentId r, subagentDurationMs := totalDurationMs r,
                  subagentTokens := totalTokens r\<rparr>
           else m\<lparr>toolResult := Some r\<rparr>)
      | None \<Rightarrow> m\<lparr>toolResult := None\<rparr>)"

definition error_detail :: "result_event \<Rightarrow> ustring" where
  "error_detail r =
     (let joined = (case errors r of None \<Rightarrow> [] | Some es \<Rightarrow> join (utf16 ''; '') es)
      in if joined \<noteq> [] then joined
         else (case result r of None \<Rightarrow> [] | Some x \<Rightarrow> x))"

definition signals_error :: "result_event \<Rightarrow> bool" where
  "signals_error r =
     (is_error r \<or> (case res_subtype r of None \<Rightarrow> False | Some st \<Rightarrow> startsWith st ''error''))"

text \<open>
  The part of \<^verbatim>\<open>handleEvent\<close> after \<^verbatim>\<open>getOrCreate\<close> and the parent test: the session's
  state and the counter go in; the state, the counter and the callbacks fired come out.
\<close>

definition handleTopLevel ::
  "clock \<Rightarrow> string \<Rightarrow> nat \<Rightarrow> claude_body \<Rightarrow> internal_state
     \<Rightarrow> internal_state \<times> nat \<times> notification list" where
  "handleTopLevel now sid cnt b s =
     (case b of
        SystemEvt e \<Rightarrow>
          (if sys_subtype e = Some ''status'' \<or> sys_subtype e = Some ''compact_boundary''
           then (s, cnt, [])
           else (s\<lparr>sessionInfo := Some \<lparr>sessionId = init_session_id e, model = init_model e,
                      cwd = init_cwd e, tools = init_tools e, version = claude_code_version e\<rparr>,
                    isConnected := True, isProcessing := True\<rparr>,
                 cnt, [ProcessingChange sid True]))
      | StreamEvt e \<Rightarrow> (let (s', cnt') = handleStreamEvent now cnt e s in (s', cnt', []))
      | AssistantEvt e \<Rightarrow>
          (push_tool_uses now 1 (tool_uses e) (reconcile_assistant (now 0) e s), cnt, [])
      | UserEvt tr \<Rightarrow>
          (case tr of
             None \<Rightarrow> (s, cnt, [])
           | Some r \<Rightarrow> (s\<lparr>messages := map (attach_tool_result r) (messages s)\<rparr>, cnt, []))
      | ResultEvt r \<Rightarrow>
          (let s1 = s\<lparr>isProcessing := False,
                      totalCost := js_add (totalCost s)
                                     (case total_cost_usd r of None \<Rightarrow> pos_zero | Some c \<Rightarrow> c)\<rparr>
           in if signals_error r
              then (s1\<lparr>messages := messages s1 @
                        [(base_msg (nextId ''sys-err'' (now 0) cnt) System
                            (formatResultError (res_subtype r) (error_detail r)) (now 1))
                           \<lparr>isError := Some True\<rparr>]\<rparr>,
                    Suc cnt, [ProcessingChange sid False])
              else (s1, cnt, [ProcessingChange sid False]))
      | OtherEvt \<Rightarrow> (s, cnt, []))"

definition handleEvent :: "clock \<Rightarrow> claude_event \<Rightarrow> store \<Rightarrow> store" where
  "handleEvent now ev st =
     (case ev_sessionId ev of
        None \<Rightarrow> st
      | Some sid \<Rightarrow>
          if sid = [] then st
          else (let s = getOrCreate sid st in
                if truthy_str (ev_parentId ev)
                then st\<lparr>sessions := (sessions st)
                          (sid \<mapsto> handleSubagentEvent s (body ev) (the (ev_parentId ev)))\<rparr>
                else (let (s', cnt', ns) = handleTopLevel now sid (idCounter st) (body ev) s
                      in st\<lparr>sessions := (sessions st)(sid \<mapsto> s'), idCounter := cnt',
                            notifications := notifications st @ ns\<rparr>)))"

subsection \<open>Protocol B: session updates\<close>

definition completed_result :: tool_result where
  "completed_result = \<lparr>status = Some ''completed'', agentId = None, totalDurationMs = None,
     totalTokens = None, rest = []\<rparr>"

definition pending_tool :: "ui_message \<Rightarrow> bool" where
  "pending_tool m = (role m = ToolCall \<and> toolResult m = None \<and> \<not> truthy_flag (toolError m))"

definition closePendingACPTools :: "internal_state \<Rightarrow> internal_state" where
  "closePendingACPTools s =
     s\<lparr>messages := map (\<lambda>m. if pending_tool m then m\<lparr>toolResult := Some completed_result\<rparr> else m)
                        (messages s)\<rparr>"

definition ensureACPStreamingMsg ::
  "clock \<Rightarrow> nat \<Rightarrow> internal_state \<Rightarrow> internal_state \<times> nat" where
  "ensureACPStreamingMsg now cnt s =
     (if truthy_str (currentStreamingMsgId s) then (s, cnt)
      else (let i = nextId ''stream-bg'' (now 0) cnt in
            (s\<lparr>messages := messages s @ [streaming_msg i (now 1)],
               currentStreamingMsgId := Some i\<rparr>, Suc cnt)))"

definition finalizeACPStreamingMsg :: "internal_state \<Rightarrow> internal_state" where
  "finalizeACPStreamingMsg s =
     (if \<not> truthy_str (currentStreamingMsgId s) then s
      else case current_target s of
        None \<Rightarrow> s\<lparr>currentStreamingMsgId := None\<rparr>
      | Some i \<Rightarrow>
          s\<lparr>messages := (messages s)
               [i := (finish_thinking (messages s ! i))\<lparr>isStreaming := Some False\<rparr>],
            currentStreamingMsgId := None\<rparr>)"

definition chunk_text :: "acp_content option \<Rightarrow> ustring option" where
  "chunk_text c = (case c of Some (TextContent t) \<Rightarrow> (if t \<noteq> [] then Some t else None) | _ \<Rightarrow> None)"

definition acp_tool_msg :: "nat \<Rightarrow> acp_tool_call \<Rightarrow> ui_message" where
  "acp_tool_msg t u =
     (let isAlreadyDone = (tc_status u = Some ''completed'' \<or> tc_status u = Some ''failed'');
          initialResult = (if isAlreadyDone then tc_result u else None)
      in (base_msg (''tool-'' @ toolCallId u) ToolCall [] t)
           \<lparr>toolName := Some (tc_toolName u), toolInput := Some (tc_toolInput u),
            toolResult := initialResult,
            toolError := (if tc_status u = Some ''failed'' then Some True else None)\<rparr>)"

text \<open>The part of \<^verbatim>\<open>handleACPEvent\<close> after \<^verbatim>\<open>state.isConnected = true\<close>.\<close>

definition handleACPUpdate ::
  "clock \<Rightarrow> nat \<Rightarrow> acp_update \<Rightarrow> internal_state \<Rightarrow> internal_state \<times> nat" where
  "handleACPUpdate now cnt u s =
     (case u of
        AgentMessageChunk c \<Rightarrow>
          (let s1 = closePendingACPTools s in
           case chunk_text c of
             None \<Rightarrow> (s1, cnt)
           | Some t \<Rightarrow>
               (let (s2, cnt') = ensureACPStreamingMsg now cnt s1 in
                case current_target s2 of
                  None \<Rightarrow> (s2, cnt')
                | Some i \<Rightarrow>
                    (let m1 = finish_thinking (messages s2 ! i) in
                     (s2\<lparr>messages := (messages s2)[i := m1\<lparr>content := content m1 @ t\<rparr>]\<rparr>, cnt'))))
      | AgentThoughtChunk c \<Rightarrow>
          (let s1 = closePendingACPTools s in
           case chunk_text c of
             None \<Rightarrow> (s1, cnt)
           | Some t \<Rightarrow>
               (let (s2, cnt') = ensureACPStreamingMsg now cnt s1 in
                case current_target s2 of
                  None \<Rightarrow> (s2, cnt')
                | Some i \<Rightarrow>
                    (let m = messages s2 ! i in
                     (s2\<lparr>messages := (messages s2)
                          [i := m\<lparr>thinking := Some ((case thinking m of None \<Rightarrow> [] | Some x \<Rightarrow> x) @ t)\<rparr>]\<rparr>,
                      cnt'))))
      | ToolCallOpen tc \<Rightarrow>
          (let s1 = finalizeACPStreamingMsg (closePendingACPTools s) in
           if list_ex (has_id (''tool-'' @ toolCallId tc)) (messages s1) then (s1, cnt)
           else (s1\<lparr>messages := messages s1 @ [acp_tool_msg (now 0) tc]\<rparr>, cnt))
      | ToolCallUpdate tc \<Rightarrow>
          (case find_index (has_id (''tool-'' @ toolCallId tc)) (messages s) of
             None \<Rightarrow> (s, cnt)
           | Some i \<Rightarrow>
               (let m = messages s ! i;
                    m1 = (case tc_result tc of None \<Rightarrow> m | Some r \<Rightarrow> m\<lparr>toolResult := Some r\<rparr>);
                    m2 = (if tc_status tc = Some ''failed'' then m1\<lparr>toolError := Some True\<rparr> else m1)
                in (s\<lparr>messages := (messages s)[i := m2]\<rparr>, cnt)))
      | UsageUpdate c \<Rightarrow>
          (case c of None \<Rightarrow> (s, cnt) | Some amount \<Rightarrow> (s\<lparr>totalCost := js_add (totalCost s) amount\<rparr>, cnt))
      | OtherUpdate \<Rightarrow> (s, cnt))"

definition handleACPEvent :: "clock \<Rightarrow> acp_event \<Rightarrow> store \<Rightarrow> store" where
  "handleACPEvent now ev st =
     (case acp_sessionId ev of
        None \<Rightarrow> st
      | Some sid \<Rightarrow>
          if sid = [] then st
          else (let s = (getOrCreate sid st)\<lparr>isConnected := True\<rparr>;
                    (s', cnt') = handleACPUpdate now (idCounter st) (update ev) s
                in st\<lparr>sessions := (sessions st)(sid \<mapsto> s'), idCounter := cnt'\<rparr>))"

definition handleACPTurnComplete :: "string \<Rightarrow> store \<Rightarrow> store" where
  "handleACPTurnComplete sid st =
     (case sessions st sid of
        None \<Rightarrow> st
      | Some s \<Rightarrow>
          st\<lparr>sessions := (sessions st)
                (sid \<mapsto> (closePendingACPTools (finalizeACPStreamingMsg s))\<lparr>isProcessing := False\<rparr>),
             notifications := notifications st @ [ProcessingChange sid False]\<rparr>)"

subsection \<open>Permission, snapshot, hand-over, disconnection\<close>

definition setPermission ::
  "string \<Rightarrow> permission_request \<Rightarrow> acp_permission_event option \<Rightarrow> store \<Rightarrow> store" where
  "setPermission sid permission raw st =
     st\<lparr>sessions := (sessions st)
           (sid \<mapsto> (getOrCreate sid st)\<lparr>pendingPermission := Some permission,
                                         rawAcpPermission := raw\<rparr>),
        notifications := notifications st @ [PermissionRequested sid permission]\<rparr>"

definition has :: "string \<Rightarrow> store \<Rightarrow> bool" where
  "has sid st = (sessions st sid \<noteq> None)"

definition public_state :: "internal_state \<Rightarrow> background_session_state" where
  "public_state s = \<lparr>messages = messages s, isProcessing = isProcessing s,
     isConnected = isConnected s, sessionInfo = sessionInfo s, totalCost = totalCost s,
     pendingPermission = pendingPermission s, rawAcpPermission = rawAcpPermission s\<rparr>"

definition consume :: "string \<Rightarrow> store \<Rightarrow> background_session_state option \<times> store" where
  "consume sid st =
     (case sessions st sid of
        None \<Rightarrow> (None, st)
      | Some s \<Rightarrow> (Some (public_state s), st\<lparr>sessions := (sessions st)(sid := None)\<rparr>))"

definition delete :: "string \<Rightarrow> store \<Rightarrow> store" where
  "delete sid st = st\<lparr>sessions := (sessions st)(sid := None)\<rparr>"

text \<open>\<^verbatim>\<open>msg.id.replace(/^tool-/, "")\<close>\<close>

definition strip_tool_prefix :: "string \<Rightarrow> string" where
  "strip_tool_prefix i = (if startsWith i ''tool-'' then drop 5 i else i)"

definition rebuild_parentToolMap :: "ui_message list \<Rightarrow> (string \<rightharpoonup> string)" where
  "rebuild_parentToolMap ms =
     fold (\<lambda>m pm. if role m = ToolCall \<and> subagentSteps m \<noteq> None
                  then pm(strip_tool_prefix (id_msg m) \<mapsto> id_msg m) else pm)
          ms Map.empty"

definition detect_streaming :: "ui_message list \<Rightarrow> string option" where
  "detect_streaming ms =
     (case findLast_index streaming_assistant ms of
        None \<Rightarrow> None
      | Some i \<Rightarrow> Some (id_msg (ms ! i)))"

definition initFromState :: "string \<Rightarrow> background_session_state \<Rightarrow> store \<Rightarrow> store" where
  "initFromState sid state st =
     st\<lparr>sessions := (sessions st)
           (sid \<mapsto> \<lparr>messages = messages state, isProcessing = isProcessing state,
                    isConnected = isConnected state, sessionInfo = sessionInfo state,
                    totalCost = totalCost state, pendingPermission = pendingPermission state,
                    rawAcpPermission = rawAcpPermission state,
                    parentToolMap = rebuild_parentToolMap (messages state),
                    currentStreamingMsgId = detect_streaming (messages state)\<rparr>)\<rparr>"

definition markDisconnected :: "string \<Rightarrow> store \<Rightarrow> store" where
  "markDisconnected sid st =
     (case sessions st sid of
        None \<Rightarrow> st
      | Some s \<Rightarrow>
          st\<lparr>sessions := (sessions st)
                (sid \<mapsto> s\<lparr>isConnected := False, pendingPermission := None,
                           rawAcpPermission := None, isProcessing := False,
                           messages := map (\<lambda>m. if truthy_flag (isStreaming m)
                                                 then m\<lparr>isStreaming := Some False\<rparr> else m)
                                           (messages s)\<rparr>),
             notifications := notifications st @
                (if isProcessing s then [ProcessingChange sid False] else [])\<rparr>)"

section \<open>Ingestion sequences\<close>

datatype ingestion =
  ProtocolA clock claude_event
  | ProtocolB clock acp_event
  | TurnComplete string

fun ingest :: "ingestion \<Rightarrow> store \<Rightarrow> store" where
  "ingest (ProtocolA now ev) st = handleEvent now ev st"
| "ingest (ProtocolB now ev) st = handleACPEvent now ev st"
| "ingest (TurnComplete sid) st = handleACPTurnComplete sid st"

definition ingest_all :: "ingestion list \<Rightarrow> store \<Rightarrow> store" where
  "ingest_all evs st = fold ingest evs st"

text \<open>Top-level Protocol A events and Protocol B events addressed to a session.\<close>

definition topEv :: "string \<Rightarrow> claude_body \<Rightarrow> claude_event" where
  "topEv sid b = \<lparr>ev_sessionId = Some sid, ev_parentId = None, body = b\<rparr>"

definition nestedEv :: "string \<Rightarrow> string \<Rightarrow> claude_body \<Rightarrow> claude_event" where
  "nestedEv sid parent b = \<lparr>ev_sessionId = Some sid, ev_parentId = Some parent, body = b\<rparr>"

definition acpEv :: "string \<Rightarrow> acp_update \<Rightarrow> acp_event" where
  "acpEv sid u = \<lparr>acp_sessionId = Some sid, update = u\<rparr>"

text \<open>
  The cost an event carries for session \<open>sid\<close>: the turn's cost of a top-level turn-result
  (zero when absent), the amount of a usage-update that has a cost; no other event
  carries one.
\<close>

definition carried_cost :: "string \<Rightarrow> ingestion \<Rightarrow> number option" where
  "carried_cost sid i =
     (case i of
        ProtocolA now ev \<Rightarrow>
          (if ev_sessionId ev = Some sid \<and> sid \<noteq> [] \<and> \<not> truthy_str (ev_parentId ev)
           then (case body ev of
                   ResultEvt r \<Rightarrow> Some (case total_cost_usd r of None \<Rightarrow> pos_zero | Some c \<Rightarrow> c)
                 | _ \<Rightarrow> None)
           else None)
      | ProtocolB now ev \<Rightarrow>
          (if acp_sessionId ev = Some sid \<and> sid \<noteq> []
           then (case update ev of UsageUpdate c \<Rightarrow> c | _ \<Rightarrow> None)
           else None)
      | TurnComplete x \<Rightarrow> None)"

text \<open>The total cost of a session, zero while the session does not exist yet.\<close>

definition total_of :: "string \<Rightarrow> store \<Rightarrow> number" where
  "total_of sid st = totalCost (getOrCreate sid st)"

text \<open>The total after an amount, if any, has been added to it.\<close>

fun add_carried :: "number \<Rightarrow> number option \<Rightarrow> number" where
  "add_carried t None = t"
| "add_carried t (Some a) = js_add t a"

text \<open>The session updates that begin by closing the pending tool calls.\<close>

definition closing_update :: "acp_update \<Rightarrow> bool" where
  "closing_update u =
     (case u of
        AgentMessageChunk c \<Rightarrow> True
      | AgentThoughtChunk c \<Rightarrow> True
      | ToolCallOpen tc \<Rightarrow> True
      | _ \<Rightarrow> False)"

text \<open>A tool-call open that is still in progress, used in the examples.\<close>

definition open_a :: acp_tool_call where
  "open_a = \<lparr>toolCallId = ''a'', tc_status = Some ''in_progress'', tc_toolName = ''Read'',
     tc_toolInput = ''{}'', tc_result = None\<rparr>"

text \<open>An assistant event without text, reasoning or tool-use requests.\<close>

definition silent_assistant :: assistant_event where
  "silent_assistant = \<lparr>uuid = ''u1'', textContent = [], thinkingContent = [], tool_uses = []\<rparr>"

text \<open>The events of the nested-agent example.\<close>

definition task_request :: "json \<Rightarrow> assistant_event" where
  "task_request inp = \<lparr>uuid = ''u1'', textContent = [], thinkingContent = [],
     tool_uses = [\<lparr>tu_id = ''abc'', tu_name = ''Task'', tu_input = inp\<rparr>]\<rparr>"

definition nested_request :: "tool_use \<Rightarrow> assistant_event" where
  "nested_request b = \<lparr>uuid = ''u2'', textContent = [], thinkingContent = [], tool_uses = [b]\<rparr>"

definition nested_result :: "tool_use \<Rightarrow> tool_result \<Rightarrow> tool_result_event" where
  "nested_result b r = \<lparr>tool_use_id = tu_id b, resultMeta = Some r\<rparr>"

definition nested_run :: "json \<Rightarrow> tool_use \<Rightarrow> tool_result \<Rightarrow> store" where
  "nested_run inp b r = ingest_all
     [ProtocolA (fixed_clock 0) (topEv ''s'' (AssistantEvt (task_request inp))),
      ProtocolA (fixed_clock 0) (nestedEv ''s'' ''abc'' (AssistantEvt (nested_request b))),
      ProtocolA (fixed_clock 0) (nestedEv ''s'' ''abc'' (UserEvt (Some (nested_result b r))))]
     empty_store"

definition open_abc :: acp_tool_call where
  "open_abc = \<lparr>toolCallId = ''abc'', tc_status = Some ''pending'', tc_toolName = ''Task'',
     tc_toolInput = ''{}'', tc_result = None\<rparr>"

definition nested_run_B :: "tool_use \<Rightarrow> tool_result \<Rightarrow> store" where
  "nested_run_B b r = ingest_all
     [ProtocolB (fixed_clock 0) (acpEv ''s'' (ToolCallOpen open_abc)),
      ProtocolA (fixed_clock 0) (nestedEv ''s'' ''abc'' (AssistantEvt (nested_request b))),
      ProtocolA (fixed_clock 0) (nestedEv ''s'' ''abc'' (UserEvt (Some (nested_result b r))))]
     empty_store"

definition read_use :: tool_use where
  "read_use = \<lparr>tu_id = ''t1'', tu_name = ''Read'', tu_input = ''{}''\<rparr>"

section \<open>Operations of the store\<close>

datatype operation =
  Ingest ingestion
  | SetPermission string permission_request "acp_permission_event option"
  | Seed string background_session_state
  | MarkDisconnected string
  | Consume string
  | Delete string

fun apply_op :: "operation \<Rightarrow> store \<Rightarrow> store" where
  "apply_op (Ingest i) st = ingest i st"
| "apply_op (SetPermission sid p raw) st = setPermission sid p raw st"
| "apply_op (Seed sid state) st = initFromState sid state st"
| "apply_op (MarkDisconnected sid) st = markDisconnected sid st"
| "apply_op (Consume sid) st = snd (consume sid st)"
| "apply_op (Delete sid) st = delete sid st"

definition run :: "operation list \<Rightarrow> store \<Rightarrow> store" where
  "run ops st = fold apply_op ops st"

text \<open>
  The lifetime of session \<open>sid\<close> ends, and a new one begins, with an operation that removes
  its entry (consume, delete) or installs a supplied state (seed). The other operations
  carry a cost for the session when they ingest an event that does.
\<close>

fun recreates :: "string \<Rightarrow> operation \<Rightarrow> bool" where
  "recreates sid (Seed x state) = (x = sid)"
| "recreates sid (Consume x) = (x = sid)"
| "recreates sid (Delete x) = (x = sid)"
| "recreates sid opn = False"

fun charged :: "string \<Rightarrow> operation \<Rightarrow> number option" where
  "charged sid (Ingest i) = carried_cost sid i"
| "charged sid opn = None"

text \<open>Every amount the operations carry for \<open>sid\<close> is a finite double that is not negative.\<close>

definition nonnegative_costs :: "string \<Rightarrow> operation list \<Rightarrow> bool" where
  "nonnegative_costs sid ops =
     list_all (\<lambda>opn. case charged sid opn of None \<Rightarrow> True | Some a \<Rightarrow> nonnegative a) ops"

text \<open>
  Operations of the examples: a usage-update carrying an amount, and the usage-updates
  with the amounts \<open>0.02\<close> and \<open>0.03\<close>.
\<close>

definition usage :: "string \<Rightarrow> number \<Rightarrow> operation" where
  "usage sid a = Ingest (ProtocolB (fixed_clock 0) (acpEv sid (UsageUpdate (Some a))))"

definition two_usages :: "operation list" where
  "two_usages = [usage ''s'' (decimal 2 2), usage ''s'' (decimal 3 2)]"

text \<open>
  A set-permission call made on a session that is connected at the time of the call, and
  a seed whose state has no pending permission unless it is connected.
\<close>

fun permitted :: "operation \<Rightarrow> store \<Rightarrow> bool" where
  "permitted (SetPermission sid p raw) st =
     (case sessions st sid of None \<Rightarrow> False | Some s \<Rightarrow> isConnected s)"
| "permitted (Seed sid state) st = (isConnected state \<or> pendingPermission state = None)"
| "permitted opn st = True"

fun admissible :: "operation list \<Rightarrow> store \<Rightarrow> bool" where
  "admissible [] st = True"
| "admissible (opn # ops) st = (permitted opn st \<and> admissible ops (apply_op opn st))"

text \<open>A session has no pending permission unless it is connected.\<close>

definition perm_ok :: "internal_state \<Rightarrow> bool" where
  "perm_ok s = (isConnected s \<or> pendingPermission s = None)"















section \<open>Invariants of ingestion\<close>

text \<open>Ids of tool-call messages begin with \<open>tool-\<close>; the other ids do not begin with \<open>t\<close>.\<close>

definition tool_id :: "string \<Rightarrow> bool" where
  "tool_id i = startsWith i ''tool-''"

definition plain_id :: "string \<Rightarrow> bool" where
  "plain_id i = (i \<noteq> [] \<and> hd i \<noteq> CHR ''t'')"

definition is_tool_call :: "ui_message \<Rightarrow> bool" where
  "is_tool_call m = (role m = ToolCall)"

text \<open>What the invariants read of a message: its id, its role, whether it has a step list.\<close>

definition key :: "ui_message \<Rightarrow> string \<times> role \<times> bool" where
  "key m = (id_msg m, role m, subagentSteps m \<noteq> None)"

definition register_key :: "string \<times> role \<times> bool \<Rightarrow> (string \<rightharpoonup> string) \<Rightarrow> (string \<rightharpoonup> string)" where
  "register_key k pm =
     (case k of (i, r, st) \<Rightarrow> if r = ToolCall \<and> st then pm(strip_tool_prefix i \<mapsto> i) else pm)"

text \<open>
  The id discipline of a session, \<open>n\<close> being the store's counter: the shape of the ids,
  no two tool-call messages with one id, the parent-correlation mapping being the one the
  transcript determines, the current-streaming pointer being a generated id, and every
  generated streaming id in the transcript having a counter below \<open>n\<close>.
\<close>

definition ids_ok ::
  "nat \<Rightarrow> ui_message list \<Rightarrow> (string \<rightharpoonup> string) \<Rightarrow> string option \<Rightarrow> bool" where
  "ids_ok n ms pm cur =
     ((\<forall>m \<in> set ms. (role m = ToolCall \<longrightarrow> tool_id (id_msg m)) \<and>
                       (role m \<noteq> ToolCall \<longrightarrow> plain_id (id_msg m)))
      \<and> distinct (map id_msg (filter is_tool_call ms))
      \<and> pm = rebuild_parentToolMap ms
      \<and> (\<forall>c. cur = Some c \<longrightarrow> (\<exists>a k. c = nextId ''stream-bg'' a k \<and> k < n))
      \<and> (\<forall>m \<in> set ms. \<forall>a k. id_msg m = nextId ''stream-bg'' a k \<longrightarrow> k < n))"

definition ids_inv :: "nat \<Rightarrow> internal_state \<Rightarrow> bool" where
  "ids_inv n s = ids_ok n (messages s) (parentToolMap s) (currentStreamingMsgId s)"

text \<open>Every session of the store keeps the id discipline, for the store's counter.\<close>

definition store_inv :: "store \<Rightarrow> bool" where
  "store_inv st = (\<forall>sid s. sessions st sid = Some s \<longrightarrow> ids_inv (idCounter st) s)"

text \<open>Consume followed by seed with the state consume returned.\<close>

definition consume_then_seed :: "string \<Rightarrow> store \<Rightarrow> store" where
  "consume_then_seed sid st =
     (case consume sid st of
        (None, st') \<Rightarrow> st'
      | (Some state, st') \<Rightarrow> initFromState sid state st')"

text \<open>The tool-call messages of a transcript, in order.\<close>

definition tool_calls :: "ui_message list \<Rightarrow> ui_message list" where
  "tool_calls ms = filter is_tool_call ms"

text \<open>
  Events of the examples: a stream stopped without message-delta, a stream whose message
  an empty finalized event pruned, an open stream, a tool-use request.
\<close>

definition stopped_stream :: store where
  "stopped_stream = ingest_all
     [ProtocolA (fixed_clock 0) (topEv ''s'' (StreamEvt MessageStart)),
      ProtocolA (fixed_clock 0) (topEv ''s'' (StreamEvt MessageStop))] empty_store"

definition pruned_stream :: store where
  "pruned_stream = ingest_all
     [ProtocolA (fixed_clock 0) (topEv ''s'' (StreamEvt MessageStart)),
      ProtocolA (fixed_clock 0) (topEv ''s'' (AssistantEvt silent_assistant))] empty_store"

definition open_stream :: "ingestion list" where
  "open_stream =
     [ProtocolA (fixed_clock 0) (topEv ''s'' (StreamEvt MessageStart)),
      ProtocolA (fixed_clock 0) (topEv ''s'' (StreamEvt (ContentBlockDelta (TextDelta (utf16 ''par'')))))]"

definition read_request :: assistant_event where
  "read_request = \<lparr>uuid = ''u1'', textContent = (utf16 ''reading''), thinkingContent = [],
     tool_uses = [\<lparr>tu_id = ''t1'', tu_name = ''Read'', tu_input = ''{}''\<rparr>]\<rparr>"

section \<open>The streaming flag\<close>

definition streaming :: "ui_message \<Rightarrow> bool" where
  "streaming m = truthy_flag (isStreaming m)"

text \<open>
  Every message whose streaming flag is set is the one the current-streaming pointer
  names, and at most one message has the id the pointer names.
\<close>

definition stream_ok :: "ui_message list \<Rightarrow> string option \<Rightarrow> bool" where
  "stream_ok ms cur =
     ((\<forall>m \<in> set ms. streaming m \<longrightarrow> cur = Some (id_msg m))
      \<and> (\<forall>c. cur = Some c \<longrightarrow> length (filter (has_id c) ms) \<le> 1))"

definition stream_inv :: "internal_state \<Rightarrow> bool" where
  "stream_inv s = stream_ok (messages s) (currentStreamingMsgId s)"

definition skey :: "ui_message \<Rightarrow> string \<times> bool" where
  "skey m = (id_msg m, streaming m)"

text \<open>
  A Protocol A message-start or message-stop is well timed when no message of its session
  has the streaming flag set; every other event is.
\<close>

fun well_timed :: "ingestion \<Rightarrow> store \<Rightarrow> bool" where
  "well_timed (ProtocolA now ev) st =
     (case ev_sessionId ev of
        None \<Rightarrow> True
      | Some sid \<Rightarrow>
          if sid \<noteq> [] \<and> \<not> truthy_str (ev_parentId ev) \<and>
             (body ev = StreamEvt MessageStart \<or> body ev = StreamEvt MessageStop)
          then \<not> list_ex streaming (messages (getOrCreate sid st))
          else True)"
| "well_timed i st = True"

fun well_timed_run :: "ingestion list \<Rightarrow> store \<Rightarrow> bool" where
  "well_timed_run [] st = True"
| "well_timed_run (i # evs) st = (well_timed i st \<and> well_timed_run evs (ingest i st))"

text \<open>Every session of the store keeps the streaming discipline.\<close>

definition streams_inv :: "store \<Rightarrow> bool" where
  "streams_inv st = (\<forall>sid s. sessions st sid = Some s \<longrightarrow> stream_inv s)"

text \<open>Events of the examples: two message-starts in a row; a complete turn and a chunk.\<close>

definition double_start :: "ingestion list" where
  "double_start =
     [ProtocolA (fixed_clock 0) (topEv ''s'' (StreamEvt MessageStart)),
      ProtocolA (fixed_clock 0) (topEv ''s'' (StreamEvt MessageStart))]"

definition mixed_turns :: "ingestion list" where
  "mixed_turns =
     [ProtocolA (fixed_clock 0) (topEv ''s'' (StreamEvt MessageStart)),
      ProtocolA (fixed_clock 0) (topEv ''s'' (StreamEvt (ContentBlockDelta (TextDelta (utf16 ''hi''))))),
      ProtocolA (fixed_clock 0) (topEv ''s'' (StreamEvt MessageDelta)),
      ProtocolA (fixed_clock 0) (topEv ''s'' (StreamEvt MessageStop)),
      ProtocolB (fixed_clock 0) (acpEv ''s'' (AgentMessageChunk (Some (TextContent (utf16 ''yo'')))))]"

section \<open>The snapshot operation on a heap of objects\<close>

text \<open>
  \<^verbatim>\<open>get\<close> copies objects, and what it leaves shared matters: here the store's objects live
  in a heap, and a field holding an object holds its address. The objects referenced by a
  message (tool input, tool result, step list, image array), the tools array of a session
  info and the permission objects are leaves, with their content as a value.
\<close>

type_synonym addr = nat

record message_obj =
  m_id :: string
  m_role :: role
  m_content :: ustring
  m_thinking :: "ustring option"
  m_thinkingComplete :: "bool option"
  m_isStreaming :: "bool option"
  m_timestamp :: nat
  m_toolName :: "string option"
  m_toolInput :: "addr option"
  m_toolResult :: "addr option"
  m_toolError :: "bool option"
  m_subagentSteps :: "addr option"
  m_subagentStatus :: "subagent_status option"
  m_subagentId :: "string option"
  m_subagentDurationMs :: "nat option"
  m_subagentTokens :: "nat option"
  m_isError :: "bool option"
  m_images :: "addr option"

record info_obj =
  i_sessionId :: string
  i_model :: string
  i_cwd :: string
  i_tools :: addr
  i_version :: string

record snapshot_obj =
  o_messages :: addr
  o_isProcessing :: bool
  o_isConnected :: bool
  o_sessionInfo :: "addr option"
  o_totalCost :: number
  o_pendingPermission :: "addr option"
  o_rawAcpPermission :: "addr option"

record state_obj = snapshot_obj +
  o_parentToolMap :: "string \<rightharpoonup> string"
  o_currentStreamingMsgId :: "string option"

datatype obj =
  StateObj state_obj
  | SnapshotObj snapshot_obj
  | ArrayObj "addr list"
  | MessageObj message_obj
  | InfoObj info_obj
  | InputObj json
  | ResultObj tool_result
  | StepsObj "subagent_step list"
  | ImagesObj "image list"
  | ToolsObj "string list"
  | PermissionObj permission_request
  | RawPermissionObj acp_permission_event

type_synonym heap = "addr \<rightharpoonup> obj"

record heap_store =
  heap :: heap
  next_addr :: addr
  session_addr :: "string \<rightharpoonup> addr"

text \<open>The elements of the array at an address.\<close>

definition array_of :: "heap \<Rightarrow> addr \<Rightarrow> addr list" where
  "array_of h a = (case h a of Some (ArrayObj rs) \<Rightarrow> rs | _ \<Rightarrow> [])"

text \<open>A new object gets the next free address.\<close>

definition alloc :: "obj \<Rightarrow> heap \<times> addr \<Rightarrow> addr \<times> (heap \<times> addr)" where
  "alloc ob hn = (snd hn, ((fst hn)(snd hn \<mapsto> ob), Suc (snd hn)))"

text \<open>\<^verbatim>\<open>{ ...x }\<close>: a new object with the fields of the object at \<open>r\<close>.\<close>

definition spread :: "addr \<Rightarrow> heap \<times> addr \<Rightarrow> addr \<times> (heap \<times> addr)" where
  "spread r hn = (case fst hn r of None \<Rightarrow> (r, hn) | Some ob \<Rightarrow> alloc ob hn)"

text \<open>\<^verbatim>\<open>state.messages.map(m => ({ ...m }))\<close>, without the allocation of the new array.\<close>

fun spread_all :: "addr list \<Rightarrow> heap \<times> addr \<Rightarrow> addr list \<times> (heap \<times> addr)" where
  "spread_all [] hn = ([], hn)"
| "spread_all (r # rs) hn =
     (let (a, hn1) = spread r hn; (as, hn2) = spread_all rs hn1 in (a # as, hn2))"

definition spread_opt :: "addr option \<Rightarrow> heap \<times> addr \<Rightarrow> addr option \<times> (heap \<times> addr)" where
  "spread_opt r hn =
     (case r of None \<Rightarrow> (None, hn) | Some x \<Rightarrow> (let (a, hn1) = spread x hn in (Some a, hn1)))"

definition get :: "string \<Rightarrow> heap_store \<Rightarrow> addr option \<times> heap_store" where
  "get sid hs =
     (case session_addr hs sid of
        None \<Rightarrow> (None, hs)
      | Some a \<Rightarrow>
          (case heap hs a of
             Some (StateObj st) \<Rightarrow>
               (let hn0 = (heap hs, next_addr hs);
                    (ms, hn1) = spread_all (array_of (heap hs) (o_messages st)) hn0;
                    (arr, hn2) = alloc (ArrayObj ms) hn1;
                    (info, hn3) = spread_opt (o_sessionInfo st) hn2;
                    (perm, hn4) = spread_opt (o_pendingPermission st) hn3;
                    (p, hn5) = alloc (SnapshotObj
                       \<lparr>o_messages = arr, o_isProcessing = o_isProcessing st,
                        o_isConnected = o_isConnected st, o_sessionInfo = info,
                        o_totalCost = o_totalCost st, o_pendingPermission = perm,
                        o_rawAcpPermission = o_rawAcpPermission st\<rparr>) hn4
                in (Some p, hs\<lparr>heap := fst hn5, next_addr := snd hn5\<rparr>))
           | _ \<Rightarrow> (None, hs)))"

subsection \<open>The value of a record in the heap\<close>

definition view_message :: "heap \<Rightarrow> message_obj \<Rightarrow> ui_message" where
  "view_message h m =
     \<lparr>id_msg = m_id m, role = m_role m, content = m_content m, thinking = m_thinking m,
      thinkingComplete = m_thinkingComplete m, isStreaming = m_isStreaming m,
      timestamp = m_timestamp m, toolName = m_toolName m,
      toolInput = (case m_toolInput m of None \<Rightarrow> None
                   | Some r \<Rightarrow> (case h r of Some (InputObj j) \<Rightarrow> Some j | _ \<Rightarrow> None)),
      toolResult = (case m_toolResult m of None \<Rightarrow> None
                    | Some r \<Rightarrow> (case h r of Some (ResultObj t) \<Rightarrow> Some t | _ \<Rightarrow> None)),
      toolError = m_toolError m,
      subagentSteps = (case m_subagentSteps m of None \<Rightarrow> None
                       | Some r \<Rightarrow> (case h r of Some (StepsObj ss) \<Rightarrow> Some ss | _ \<Rightarrow> None)),
      subagentStatus = m_subagentStatus m, subagentId = m_subagentId m,
      subagentDurationMs = m_subagentDurationMs m, subagentTokens = m_subagentTokens m,
      isError = m_isError m,
      images = (case m_images m of None \<Rightarrow> None
                | Some r \<Rightarrow> (case h r of Some (ImagesObj is) \<Rightarrow> Some is | _ \<Rightarrow> None))\<rparr>"

definition view_element :: "heap \<Rightarrow> addr \<Rightarrow> ui_message list" where
  "view_element h r = (case h r of Some (MessageObj m) \<Rightarrow> [view_message h m] | _ \<Rightarrow> [])"

definition view_messages :: "heap \<Rightarrow> addr \<Rightarrow> ui_message list" where
  "view_messages h a = concat (map (view_element h) (array_of h a))"

definition view_info :: "heap \<Rightarrow> addr option \<Rightarrow> session_info option" where
  "view_info h r =
     (case r of
        None \<Rightarrow> None
      | Some a \<Rightarrow>
          (case h a of
             Some (InfoObj i) \<Rightarrow>
               Some \<lparr>sessionId = i_sessionId i, model = i_model i, cwd = i_cwd i,
                     tools = (case h (i_tools i) of Some (ToolsObj ts) \<Rightarrow> ts | _ \<Rightarrow> []),
                     version = i_version i\<rparr>
           | _ \<Rightarrow> None))"

definition view_permission :: "heap \<Rightarrow> addr option \<Rightarrow> permission_request option" where
  "view_permission h r =
     (case r of None \<Rightarrow> None
      | Some a \<Rightarrow> (case h a of Some (PermissionObj p) \<Rightarrow> Some p | _ \<Rightarrow> None))"

definition view_raw :: "heap \<Rightarrow> addr option \<Rightarrow> acp_permission_event option" where
  "view_raw h r =
     (case r of None \<Rightarrow> None
      | Some a \<Rightarrow> (case h a of Some (RawPermissionObj p) \<Rightarrow> Some p | _ \<Rightarrow> None))"

definition view_fields :: "heap \<Rightarrow> 'a snapshot_obj_scheme \<Rightarrow> background_session_state" where
  "view_fields h st =
     \<lparr>messages = view_messages h (o_messages st), isProcessing = o_isProcessing st,
      isConnected = o_isConnected st, sessionInfo = view_info h (o_sessionInfo st),
      totalCost = o_totalCost st, pendingPermission = view_permission h (o_pendingPermission st),
      rawAcpPermission = view_raw h (o_rawAcpPermission st)\<rparr>"

text \<open>The state a caller reads at an address: of the live record, or of a snapshot.\<close>

definition view_state :: "heap \<Rightarrow> addr \<Rightarrow> background_session_state option" where
  "view_state h a =
     (case h a of
        Some (StateObj st) \<Rightarrow> Some (view_fields h st)
      | Some (SnapshotObj sn) \<Rightarrow> Some (view_fields h sn)
      | _ \<Rightarrow> None)"

subsection \<open>The addresses a record occupies\<close>

definition set_opt :: "addr option \<Rightarrow> addr set" where
  "set_opt r = (case r of None \<Rightarrow> {} | Some a \<Rightarrow> {a})"

text \<open>The objects a message references.\<close>

definition message_refs :: "message_obj \<Rightarrow> addr set" where
  "message_refs m = set_opt (m_toolInput m) \<union> set_opt (m_toolResult m)
     \<union> set_opt (m_subagentSteps m) \<union> set_opt (m_images m)"

definition object_refs :: "heap \<Rightarrow> addr \<Rightarrow> addr set" where
  "object_refs h r =
     (case h r of
        Some (MessageObj m) \<Rightarrow> message_refs m
      | Some (InfoObj i) \<Rightarrow> {i_tools i}
      | _ \<Rightarrow> {})"

text \<open>
  The objects of a record at address \<open>a\<close>: \<open>own\<close> are the record, its message array,
  its message objects, its session info and its pending permission (the objects \<^verbatim>\<open>get\<close>
  copies); \<open>nested\<close> are the objects those reference, and the raw permission event.
\<close>

definition fields_of :: "heap \<Rightarrow> addr \<Rightarrow> snapshot_obj option" where
  "fields_of h a =
     (case h a of
        Some (StateObj st) \<Rightarrow> Some (snapshot_obj.truncate st)
      | Some (SnapshotObj sn) \<Rightarrow> Some sn
      | _ \<Rightarrow> None)"

definition own :: "heap \<Rightarrow> addr \<Rightarrow> addr set" where
  "own h a =
     (case fields_of h a of
        None \<Rightarrow> {a}
      | Some st \<Rightarrow>
          {a} \<union> {o_messages st} \<union> set (array_of h (o_messages st))
          \<union> set_opt (o_sessionInfo st) \<union> set_opt (o_pendingPermission st))"

definition nested :: "heap \<Rightarrow> addr \<Rightarrow> addr set" where
  "nested h a =
     (case fields_of h a of
        None \<Rightarrow> {}
      | Some st \<Rightarrow>
          (\<Union>r \<in> set (array_of h (o_messages st)). object_refs h r)
          \<union> (\<Union>r \<in> set_opt (o_sessionInfo st). object_refs h r)
          \<union> set_opt (o_rawAcpPermission st))"

text \<open>
  A well-formed store: every session's address holds a state object, whose own objects
  exist, and whose objects, own or nested, lie below the next free address.
\<close>

definition well_formed :: "heap_store \<Rightarrow> bool" where
  "well_formed hs =
     (\<forall>sid a. session_addr hs sid = Some a \<longrightarrow>
        (\<exists>st. heap hs a = Some (StateObj st))
        \<and> (\<forall>x \<in> own (heap hs) a. x < next_addr hs \<and> heap hs x \<noteq> None)
        \<and> (\<forall>x \<in> nested (heap hs) a. x < next_addr hs))"

text \<open>Allocation only adds objects: the heap below the old next free address is kept.\<close>

definition grows :: "heap \<times> addr \<Rightarrow> heap \<times> addr \<Rightarrow> bool" where
  "grows hn hn' = (snd hn \<le> snd hn' \<and> (\<forall>x < snd hn. fst hn' x = fst hn x))"

text \<open>
  A store with one session, whose transcript is one tool-call message with a tool input
  object: the record at address 0, its array at 1, the message at 2, the input at 3.
\<close>

definition read_call :: message_obj where
  "read_call = \<lparr>m_id = ''tool-t1'', m_role = ToolCall, m_content = [], m_thinking = None,
     m_thinkingComplete = None, m_isStreaming = None, m_timestamp = 0,
     m_toolName = Some ''Read'', m_toolInput = Some 3, m_toolResult = None,
     m_toolError = None, m_subagentSteps = None, m_subagentStatus = None,
     m_subagentId = None, m_subagentDurationMs = None, m_subagentTokens = None,
     m_isError = None, m_images = None\<rparr>"

definition live_record :: state_obj where
  "live_record = \<lparr>o_messages = 1, o_isProcessing = True, o_isConnected = True,
     o_sessionInfo = None, o_totalCost = pos_zero, o_pendingPermission = None,
     o_rawAcpPermission = None, o_parentToolMap = Map.empty,
     o_currentStreamingMsgId = None\<rparr>"

definition one_call_store :: heap_store where
  "one_call_store = \<lparr>heap = [0 \<mapsto> StateObj live_record, 1 \<mapsto> ArrayObj [2],
       2 \<mapsto> MessageObj read_call, 3 \<mapsto> InputObj ''{x:1}''],
     next_addr = 4, session_addr = [''s'' \<mapsto> 0]\<rparr>"

text \<open>The heap after \<^verbatim>\<open>get\<close>, and after a write to the object at an address.\<close>

definition after_get :: heap where
  "after_get = heap (snd (get ''s'' one_call_store))"

definition heap_write :: "addr \<Rightarrow> obj \<Rightarrow> heap \<Rightarrow> heap" where
  "heap_write a ob h = h(a \<mapsto> ob)"

section \<open>Properties\<close>

subsection \<open>Array helpers\<close>

lemma find_index_Some:
  "find_index P xs = Some i \<Longrightarrow> i < length xs \<and> P (xs ! i) \<and> (\<forall>j<i. \<not> P (xs ! j))"
proof (induction xs arbitrary: i)
  case Nil
  then show ?case by simp
next
  case (Cons x xs)
  show ?case
  proof (cases "P x")
    case True
    with Cons.prems show ?thesis by simp
  next
    case False
    with Cons.prems obtain k where k: "find_index P xs = Some k" "i = Suc k" by auto
    from Cons.IH [OF k(1)] False k(2) show ?thesis
      by (auto simp: less_Suc_eq_0_disj)
  qed
qed

lemma find_index_None: "find_index P xs = None \<longleftrightarrow> (\<forall>x \<in> set xs. \<not> P x)"
  by (induction xs) auto

lemma current_target_bound: "current_target s = Some i \<Longrightarrow> i < length (messages s)"
  by (auto simp: current_target_def split: option.splits dest: find_index_Some)

subsection \<open>Closing the pending tool calls (Protocol B)\<close>

lemma closePending_idem: "closePendingACPTools (closePendingACPTools s) = closePendingACPTools s"
  by (simp add: closePendingACPTools_def pending_tool_def comp_def)

lemma closePending_length: "length (messages (closePendingACPTools s)) = length (messages s)"
  by (simp add: closePendingACPTools_def)

lemma closePending_nth:
  "i < length (messages s) \<Longrightarrow>
   toolResult (messages (closePendingACPTools s) ! i) =
     (if pending_tool (messages s ! i) then Some completed_result else toolResult (messages s ! i))"
  by (simp add: closePendingACPTools_def)

lemma toolResult_list_update:
  "toolResult m' = toolResult (xs ! j) \<Longrightarrow> toolResult (xs[j := m'] ! i) = toolResult (xs ! i)"
  by (cases "j < length xs") (auto simp: nth_list_update list_update_beyond not_less)

lemma finish_thinking_toolResult: "toolResult (finish_thinking m) = toolResult m"
  by (simp add: finish_thinking_def)

lemma ensure_messages:
  "messages (fst (ensureACPStreamingMsg now cnt s)) = messages s \<or>
   messages (fst (ensureACPStreamingMsg now cnt s)) =
     messages s @ [streaming_msg (nextId ''stream-bg'' (now 0) cnt) (now 1)]"
  by (simp add: ensureACPStreamingMsg_def Let_def)

lemma ensure_prefix:
  "i < length (messages s) \<Longrightarrow>
   i < length (messages (fst (ensureACPStreamingMsg now cnt s))) \<and>
   messages (fst (ensureACPStreamingMsg now cnt s)) ! i = messages s ! i"
  by (simp add: ensureACPStreamingMsg_def Let_def nth_append)

lemma finalize_length: "length (messages (finalizeACPStreamingMsg s)) = length (messages s)"
  by (simp add: finalizeACPStreamingMsg_def split: option.splits)

lemma finalize_toolResult:
  "toolResult (messages (finalizeACPStreamingMsg s) ! i) = toolResult (messages s ! i)"
  by (simp add: finalizeACPStreamingMsg_def toolResult_list_update finish_thinking_toolResult
      split: option.splits)

lemma handleACPUpdate_closing_nth:
  assumes "closing_update u" "i < length (messages s)"
  shows "i < length (messages (fst (handleACPUpdate now cnt u s))) \<and>
         toolResult (messages (fst (handleACPUpdate now cnt u s)) ! i) =
           (if pending_tool (messages s ! i) then Some completed_result
            else toolResult (messages s ! i))"
proof -
  let ?c = "closePendingACPTools s"
  have c: "i < length (messages ?c)" using assms(2) by (simp add: closePending_length)
  note e = ensure_prefix [OF c, of now cnt]
  show ?thesis
  proof (cases u)
    case (AgentMessageChunk x)
    then show ?thesis using assms(2) e
      by (auto simp: handleACPUpdate_def Let_def split_beta closePending_length closePending_nth
          toolResult_list_update finish_thinking_toolResult split: option.splits)
  next
    case (AgentThoughtChunk x)
    then show ?thesis using assms(2) e
      by (auto simp: handleACPUpdate_def Let_def split_beta closePending_length closePending_nth
          toolResult_list_update split: option.splits)
  next
    case (ToolCallOpen tc)
    then show ?thesis using assms(2)
      by (auto simp: handleACPUpdate_def Let_def closePending_length closePending_nth
          finalize_length finalize_toolResult nth_append)
  qed (use assms(1) in \<open>simp_all add: closing_update_def\<close>)
qed

lemma handleACPUpdate_closing_first:
  "closing_update u \<Longrightarrow>
   handleACPUpdate now cnt u (closePendingACPTools s) = handleACPUpdate now cnt u s"
  by (cases u) (simp_all add: handleACPUpdate_def closing_update_def closePending_idem)

text \<open>
  C3 (amended). For the session updates agent-message-chunk, agent-thought-chunk and
  tool-call open, the first effect is to close the pending tool calls: handling the
  update is the same as closing first and handling then, and in the resulting state every
  message that was a pending \<open>tool_call\<close> (no result, no error flag) carries the neutral
  completed result, the results of the other messages being unchanged. A
  tool-call-update, like a usage-update, does not close the pending tool calls.
\<close>

theorem pending_tools_closed_first:
  assumes "closing_update u" and "sid \<noteq> []"
  shows "handleACPUpdate now cnt u (closePendingACPTools s0) = handleACPUpdate now cnt u s0
    \<and> (\<exists>s'. sessions (handleACPEvent now (acpEv sid u) st) sid = Some s' \<and>
          (\<forall>i < length (messages (getOrCreate sid st)).
             i < length (messages s') \<and>
             toolResult (messages s' ! i) =
               (if pending_tool (messages (getOrCreate sid st) ! i) then Some completed_result
                else toolResult (messages (getOrCreate sid st) ! i))))"
proof -
  let ?s = "(getOrCreate sid st)\<lparr>isConnected := True\<rparr>"
  have "\<forall>i < length (messages ?s).
          i < length (messages (fst (handleACPUpdate now (idCounter st) u ?s))) \<and>
          toolResult (messages (fst (handleACPUpdate now (idCounter st) u ?s)) ! i) =
            (if pending_tool (messages ?s ! i) then Some completed_result
             else toolResult (messages ?s ! i))"
    using handleACPUpdate_closing_nth [OF assms(1)] by blast
  then show ?thesis
    using assms handleACPUpdate_closing_first [OF assms(1)]
    by (simp add: handleACPEvent_def acpEv_def Let_def split_beta)
qed

lemmas acp_eval = ingest_all_def handleACPEvent_def acpEv_def handleACPUpdate_def empty_store_def
     getOrCreate_def Let_def closePendingACPTools_def finalizeACPStreamingMsg_def empty_state_def
     truthy_str_def acp_tool_msg_def base_msg_def has_id_def fixed_clock_def
      pending_tool_def truthy_flag_def

text \<open>
  After a tool-call open, a tool-call-update without output for the same call leaves the
  call pending: the update did not close it.
\<close>

theorem tool_call_update_counterexample:
  "pending_tool (messages (getOrCreate ''s''
      (ingest_all [ProtocolB (fixed_clock 0) (acpEv ''s'' (ToolCallOpen open_a)),
                   ProtocolB (fixed_clock 0) (acpEv ''s'' (ToolCallUpdate open_a))] empty_store)) ! 0)
   \<and> toolResult (messages (getOrCreate ''s''
      (ingest_all [ProtocolB (fixed_clock 0) (acpEv ''s'' (ToolCallOpen open_a)),
                   ProtocolB (fixed_clock 0) (acpEv ''s'' (ToolCallUpdate open_a))] empty_store)) ! 0)
       \<noteq> Some completed_result"
  by (simp add: acp_eval open_a_def)

theorem pending_tools_closed_first_witness:
  "closing_update (AgentMessageChunk (Some (TextContent (utf16 ''hi'')))) \<and> ''s'' \<noteq> [] \<and>
   pending_tool (messages (getOrCreate ''s''
      (handleACPEvent (fixed_clock 0) (acpEv ''s'' (ToolCallOpen open_a)) empty_store)) ! 0) \<and>
   toolResult (messages (getOrCreate ''s''
      (handleACPEvent (fixed_clock 0) (acpEv ''s'' (AgentMessageChunk (Some (TextContent (utf16 ''hi'')))))
         (handleACPEvent (fixed_clock 0) (acpEv ''s'' (ToolCallOpen open_a)) empty_store))) ! 0)
     = Some completed_result"
  using pending_tools_closed_first [of "AgentMessageChunk (Some (TextContent (utf16 ''hi'')))" "''s''" "fixed_clock 0" 0 empty_state
      "handleACPEvent (fixed_clock 0) (acpEv ''s'' (ToolCallOpen open_a)) empty_store"]
  by (auto simp add: closing_update_def acp_eval open_a_def)

subsection \<open>Decimal rendering and generated ids\<close>

lemma digit_inj: "a < 10 \<Longrightarrow> b < 10 \<Longrightarrow> digit a = digit b \<Longrightarrow> a = b"
proof -
  assume "a < 10" "b < 10" "digit a = digit b"
  moreover have "a < 10 \<Longrightarrow> a \<in> {0,1,2,3,4,5,6,7,8,9}" by auto
  moreover have "b < 10 \<Longrightarrow> b \<in> {0,1,2,3,4,5,6,7,8,9}" by auto
  ultimately show ?thesis unfolding digit_def by auto
qed

lemma digit_not_dash: "a < 10 \<Longrightarrow> digit a \<noteq> CHR ''-''"
proof -
  assume "a < 10"
  then have "a \<in> {0,1,2,3,4,5,6,7,8,9}" by auto
  then show ?thesis unfolding digit_def by auto
qed

lemma dec_nonempty: "dec n \<noteq> []"
  by (subst dec.simps) simp

lemma dec_no_dash: "CHR ''-'' \<notin> set (dec n)"
proof (induction n rule: dec.induct)
  case (1 n)
  show ?case
  proof (cases "n < 10")
    case True
    then show ?thesis using digit_not_dash [of n] by (subst dec.simps) auto
  next
    case False
    then show ?thesis using 1 digit_not_dash [of "n mod 10"]
      by (subst dec.simps) auto
  qed
qed

lemma dec_inj: "dec a = dec b \<Longrightarrow> a = b"
proof (induction a arbitrary: b rule: dec.induct)
  case (1 a)
  show ?case
  proof (cases "a < 10")
    case True
    note a = this
    show ?thesis
    proof (cases "b < 10")
      case True
      with a 1(2) show ?thesis
        using digit_inj [of a b] by (simp add: dec.simps [of a] dec.simps [of b])
    next
      case False
      with a 1(2) show ?thesis
        using dec_nonempty [of "b div 10"] by (simp add: dec.simps [of a] dec.simps [of b])
    qed
  next
    case False
    note a = this
    show ?thesis
    proof (cases "b < 10")
      case True
      with a 1(2) show ?thesis
        using dec_nonempty [of "a div 10"] by (simp add: dec.simps [of a] dec.simps [of b])
    next
      case False
      with a 1(2) have "dec (a div 10) = dec (b div 10)" "digit (a mod 10) = digit (b mod 10)"
        by (simp_all add: dec.simps [of a] dec.simps [of b])
      with 1(1) [OF a] have "a div 10 = b div 10" "a mod 10 = b mod 10"
        using digit_inj [of "a mod 10" "b mod 10"] by auto
      then show ?thesis by (metis div_mult_mod_eq)
    qed
  qed
qed

lemma nextId_counter_inj:
  assumes "nextId p a k = nextId p' a' k'"
  shows "k = k'"
proof -
  have r: "rev (nextId q x y) = rev (dec y) @ CHR ''-'' # rev (q @ ''-'' @ dec x)" for q x y
    by (simp add: nextId_def)
  have t: "takeWhile (\<lambda>c. c \<noteq> CHR ''-'') (rev (nextId q x y)) = rev (dec y)" for q x y
    unfolding r using dec_no_dash [of y] by (subst takeWhile_append2) auto
  from assms have "rev (dec k) = rev (dec k')" using t [of p a k] t [of p' a' k'] by simp
  then show ?thesis using dec_inj by simp
qed

subsection \<open>Evaluation of concrete runs\<close>

lemmas stream_eval = ingest_all_def handleEvent_def topEv_def nestedEv_def handleTopLevel_def
  handleStreamEvent_def empty_store_def getOrCreate_def Let_def empty_state_def truthy_str_def
  truthy_flag_def base_msg_def streaming_msg_def has_id_def fixed_clock_def nextId_def dec.simps
  digit_def current_target_def empty_turn_def blank_def reconcile_assistant_def
  reconcile_target_def streaming_assistant_def utf16_def is_ws_def

text \<open>
  C7. An assistant message that ends its stream with empty text and no reasoning is
  removed by the message-delta signal and by the reconciliation of a finalized event, but
  not by message-stop: after message-start and message-stop the empty message is still in
  the transcript.
\<close>

theorem message_stop_keeps_empty_turn:
  "messages (getOrCreate ''s'' (ingest_all
      [ProtocolA (fixed_clock 0) (topEv ''s'' (StreamEvt MessageStart)),
       ProtocolA (fixed_clock 0) (topEv ''s'' (StreamEvt MessageDelta))] empty_store)) = []
   \<and> messages (getOrCreate ''s'' (ingest_all
      [ProtocolA (fixed_clock 0) (topEv ''s'' (StreamEvt MessageStart)),
       ProtocolA (fixed_clock 0) (topEv ''s'' (AssistantEvt silent_assistant))] empty_store)) = []
   \<and> messages (getOrCreate ''s'' (ingest_all
      [ProtocolA (fixed_clock 0) (topEv ''s'' (StreamEvt MessageStart)),
       ProtocolA (fixed_clock 0) (topEv ''s'' (StreamEvt MessageStop))] empty_store))
     = [streaming_msg ''stream-bg-0-0'' 0]
   \<and> content (streaming_msg ''stream-bg-0-0'' 0) = []
   \<and> thinking (streaming_msg ''stream-bg-0-0'' 0) = None"
  by (simp add: stream_eval silent_assistant_def)

lemmas nested_eval = stream_eval handleSubagentEvent_def push_tool_use_def tool_msg_def
  append_step_def attach_step_result_def attach_tool_result_def task_request_def
  nested_request_def nested_result_def nested_run_def

text \<open>
  C5 (amended). Starting from an empty session: a Protocol A finalized assistant event
  with a tool-use request named \<open>Task\<close> and correlation id \<open>abc\<close>, then a nested
  assistant event with parent id \<open>abc\<close> and one tool-use block, then a nested tool-result
  for that tool-use, yield a transcript of one \<open>tool_call\<close> message whose step list has
  length one, the step carrying the normalized result; the host message's own result is
  unset until a top-level tool-result for \<open>abc\<close> arrives. (A Protocol B tool-call open
  registers no parent and creates no step list.)
\<close>

theorem nested_agent_steps:
  "length (messages (getOrCreate ''s'' (nested_run inp b r))) = 1
   \<and> role (messages (getOrCreate ''s'' (nested_run inp b r)) ! 0) = ToolCall
   \<and> id_msg (messages (getOrCreate ''s'' (nested_run inp b r)) ! 0) = ''tool-abc''
   \<and> subagentSteps (messages (getOrCreate ''s'' (nested_run inp b r)) ! 0)
        = Some [\<lparr>step_toolName = tu_name b, step_toolInput = tu_input b,
                  step_toolUseId = tu_id b, step_toolResult = Some r\<rparr>]
   \<and> toolResult (messages (getOrCreate ''s'' (nested_run inp b r)) ! 0) = None
   \<and> toolResult (messages (getOrCreate ''s''
        (handleEvent now (topEv ''s'' (UserEvt (Some \<lparr>tool_use_id = ''abc'', resultMeta = Some r'\<rparr>)))
           (nested_run inp b r))) ! 0) = Some r'"
  by (simp add: nested_eval)

text \<open>
  With a Protocol B tool-call open in place of the tool-use request, the nested events
  are dropped: the host message has no step list.
\<close>

theorem acp_tool_call_no_steps_counterexample:
  "length (messages (getOrCreate ''s'' (nested_run_B read_use completed_result))) = 1
   \<and> id_msg (messages (getOrCreate ''s'' (nested_run_B read_use completed_result)) ! 0) = ''tool-abc''
   \<and> subagentSteps (messages (getOrCreate ''s'' (nested_run_B read_use completed_result)) ! 0) = None"
  by (simp add: nested_eval nested_run_B_def acp_eval open_abc_def read_use_def)

subsection \<open>Pending permission and connection\<close>

lemma handleStreamEvent_perm:
  "pendingPermission (fst (handleStreamEvent now cnt e s)) = pendingPermission s \<and>
   isConnected (fst (handleStreamEvent now cnt e s)) = isConnected s"
  by (simp add: handleStreamEvent_def Let_def split: stream_evt.splits option.splits delta.splits)

lemma push_tool_uses_perm:
  "pendingPermission (push_tool_uses now k bs s) = pendingPermission s \<and>
   isConnected (push_tool_uses now k bs s) = isConnected s"
  by (induction bs arbitrary: k s) (simp_all add: push_tool_use_def Let_def)

lemma reconcile_assistant_perm:
  "pendingPermission (reconcile_assistant t e s) = pendingPermission s \<and>
   isConnected (reconcile_assistant t e s) = isConnected s"
  by (simp add: reconcile_assistant_def Let_def split: option.splits)

lemma handleTopLevel_perm:
  "pendingPermission (fst (handleTopLevel now sid cnt b s)) = pendingPermission s \<and>
   (isConnected s \<longrightarrow> isConnected (fst (handleTopLevel now sid cnt b s)))"
  by (cases b)
     (simp_all add: handleTopLevel_def Let_def handleStreamEvent_perm push_tool_uses_perm
        reconcile_assistant_perm split_beta split: option.splits)

lemma fold_append_step_perm:
  "pendingPermission (fold (\<lambda>blk s'. s'\<lparr>messages := map (append_step t blk) (messages s')\<rparr>) bs s)
     = pendingPermission s \<and>
   isConnected (fold (\<lambda>blk s'. s'\<lparr>messages := map (append_step t blk) (messages s')\<rparr>) bs s)
     = isConnected s"
  by (induction bs arbitrary: s) simp_all

lemma handleSubagentEvent_perm:
  "pendingPermission (handleSubagentEvent s b p) = pendingPermission s \<and>
   isConnected (handleSubagentEvent s b p) = isConnected s"
  by (simp add: handleSubagentEvent_def fold_append_step_perm split: option.splits claude_body.splits)

lemma finalize_perm:
  "pendingPermission (finalizeACPStreamingMsg s) = pendingPermission s \<and>
   isConnected (finalizeACPStreamingMsg s) = isConnected s"
  by (simp add: finalizeACPStreamingMsg_def split: option.splits)

lemma handleACPUpdate_perm:
  "pendingPermission (fst (handleACPUpdate now cnt u s)) = pendingPermission s \<and>
   isConnected (fst (handleACPUpdate now cnt u s)) = isConnected s"
  by (cases u)
     (simp_all add: handleACPUpdate_def Let_def split_beta closePendingACPTools_def finalize_perm
        ensureACPStreamingMsg_def split: option.splits)

lemma perm_ok_empty: "perm_ok empty_state"
  by (simp add: perm_ok_def empty_state_def)

lemma getOrCreate_perm_ok:
  "(\<And>x s. sessions st x = Some s \<Longrightarrow> perm_ok s) \<Longrightarrow> perm_ok (getOrCreate sid st)"
  by (auto simp: getOrCreate_def perm_ok_empty split: option.splits)

lemma ingest_perm_ok:
  assumes inv: "\<And>x s. sessions st x = Some s \<Longrightarrow> perm_ok s"
    and "sessions (ingest i st) sid = Some s'"
  shows "perm_ok s'"
proof (cases i)
  case (ProtocolA now ev)
  show ?thesis
  proof (cases "ev_sessionId ev")
    case None
    then show ?thesis using ProtocolA assms by (simp add: handleEvent_def)
  next
    case (Some x)
    have g: "perm_ok (getOrCreate x st)" using inv by (rule getOrCreate_perm_ok)
    have "perm_ok (fst (handleTopLevel now x (idCounter st) (body ev) (getOrCreate x st)))"
      using g handleTopLevel_perm [of now x "idCounter st" "body ev" "getOrCreate x st"]
      by (auto simp: perm_ok_def)
    moreover have "perm_ok (handleSubagentEvent (getOrCreate x st) (body ev) p)" for p
      using g by (simp add: perm_ok_def handleSubagentEvent_perm)
    ultimately show ?thesis using ProtocolA Some assms
      by (auto simp: handleEvent_def Let_def split_beta split: if_splits)
  qed
next
  case (ProtocolB now ev)
  show ?thesis
  proof (cases "acp_sessionId ev")
    case None
    then show ?thesis using ProtocolB assms by (simp add: handleACPEvent_def)
  next
    case (Some x)
    have "perm_ok (fst (handleACPUpdate now (idCounter st) (update ev) ((getOrCreate x st)\<lparr>isConnected := True\<rparr>)))"
      by (simp add: perm_ok_def handleACPUpdate_perm)
    then show ?thesis using ProtocolB Some assms
      by (auto simp: handleACPEvent_def Let_def split_beta split: if_splits)
  qed
next
  case (TurnComplete x)
  show ?thesis
  proof (cases "sessions st x")
    case None
    then show ?thesis using TurnComplete assms by (simp add: handleACPTurnComplete_def)
  next
    case (Some s0)
    then have "perm_ok s0" using inv by simp
    then have "perm_ok ((closePendingACPTools (finalizeACPStreamingMsg s0))\<lparr>isProcessing := False\<rparr>)"
      by (simp add: perm_ok_def closePendingACPTools_def finalize_perm)
    then show ?thesis using TurnComplete Some assms
      by (auto simp: handleACPTurnComplete_def split: if_splits)
  qed
qed

lemma apply_op_perm_ok:
  assumes inv: "\<And>x s. sessions st x = Some s \<Longrightarrow> perm_ok s"
    and "permitted opn st"
    and "sessions (apply_op opn st) sid = Some s'"
  shows "perm_ok s'"
proof (cases opn)
  case (Ingest i)
  then show ?thesis using ingest_perm_ok [of st i sid s'] assms by simp
next
  case (SetPermission x p raw)
  then show ?thesis using assms
    by (auto simp: setPermission_def perm_ok_def getOrCreate_def split: option.splits if_splits)
next
  case (Seed x state)
  then show ?thesis using assms
    by (auto simp: initFromState_def perm_ok_def split: if_splits)
next
  case (MarkDisconnected x)
  then show ?thesis using assms
    by (auto simp: markDisconnected_def perm_ok_def split: option.splits if_splits)
next
  case (Consume x)
  then show ?thesis using assms
    by (auto simp: consume_def split: option.splits if_splits)
next
  case (Delete x)
  then show ?thesis using assms
    by (auto simp: delete_def split: if_splits)
qed

lemma run_perm_ok:
  "(\<And>x s. sessions st x = Some s \<Longrightarrow> perm_ok s) \<Longrightarrow> admissible ops st \<Longrightarrow>
   sessions (run ops st) sid = Some s' \<Longrightarrow> perm_ok s'"
proof (induction ops arbitrary: st)
  case Nil
  then show ?case by (simp add: run_def)
next
  case (Cons opn ops)
  have "\<And>x s. sessions (apply_op opn st) x = Some s \<Longrightarrow> perm_ok s"
    using apply_op_perm_ok [of st opn] Cons.prems(1,2) by auto
  then show ?case using Cons.IH [of "apply_op opn st"] Cons.prems(2,3)
    by (simp add: run_def)
qed

text \<open>
  C6 (amended). \<open>pendingPermission\<close> is null whenever \<open>isConnected\<close> is false, in every
  state reached from the empty store by event ingestion, mark-disconnected, consume,
  delete, set-permission calls made on a session that is connected at the time of the
  call, and seeds of states that have no pending permission unless connected.
  Set-permission itself stores the request whatever \<open>isConnected\<close> is.
\<close>

theorem no_permission_while_disconnected:
  assumes "admissible ops empty_store"
    and "sessions (run ops empty_store) sid = Some s"
    and "\<not> isConnected s"
  shows "pendingPermission s = None"
  using run_perm_ok [of empty_store ops sid s] assms
  by (simp add: empty_store_def perm_ok_def)

lemmas store_eval = run_def setPermission_def markDisconnected_def initFromState_def consume_def
  delete_def

theorem no_permission_while_disconnected_witness:
  "admissible [Ingest (ProtocolB (fixed_clock 0) (acpEv ''s'' (UsageUpdate None))),
               SetPermission ''s'' ''perm'' None, MarkDisconnected ''s''] empty_store
   \<and> sessions (run [Ingest (ProtocolB (fixed_clock 0) (acpEv ''s'' (UsageUpdate None))),
               SetPermission ''s'' ''perm'' None, MarkDisconnected ''s''] empty_store) ''s''
      = Some empty_state
   \<and> \<not> isConnected empty_state
   \<and> pendingPermission empty_state = None"
  using no_permission_while_disconnected
    [of "[Ingest (ProtocolB (fixed_clock 0) (acpEv ''s'' (UsageUpdate None))),
               SetPermission ''s'' ''perm'' None, MarkDisconnected ''s'']" "''s''" empty_state]
  by (simp add: store_eval acp_eval)

text \<open>
  Set-permission on an unknown session creates it disconnected, with the request pending.
\<close>

theorem setPermission_disconnected_counterexample:
  "\<not> isConnected (getOrCreate ''s'' (run [SetPermission ''s'' ''perm'' None] empty_store))
   \<and> pendingPermission (getOrCreate ''s'' (run [SetPermission ''s'' ''perm'' None] empty_store))
       = Some ''perm''"
  by (simp add: store_eval getOrCreate_def empty_store_def empty_state_def)

subsection \<open>Reconciliation of the finalized assistant event\<close>

lemma findLast_index_Some:
  "findLast_index P xs = Some i \<Longrightarrow> i < length xs \<and> P (xs ! i) \<and> (\<forall>j<length xs. i < j \<longrightarrow> \<not> P (xs ! j))"
proof (induction xs arbitrary: i)
  case Nil
  then show ?case by simp
next
  case (Cons x xs)
  show ?case
  proof (cases "findLast_index P xs")
    case None
    have n: "\<forall>j<length xs. \<not> P (xs ! j)"
      using None by (induction xs) (auto split: option.splits if_splits simp: less_Suc_eq_0_disj)
    from None Cons.prems have "i = 0" "P x" by (auto split: if_splits)
    then show ?thesis using n by (auto simp: less_Suc_eq_0_disj)
  next
    case (Some k)
    with Cons.prems have i: "i = Suc k" by simp
    from Cons.IH [OF Some] i show ?thesis by (auto simp: less_Suc_eq_0_disj)
  qed
qed

lemma findLast_index_None: "findLast_index P xs = None \<longleftrightarrow> (\<forall>x \<in> set xs. \<not> P x)"
  by (induction xs) (auto split: option.splits)

lemma reconcile_target_bound: "reconcile_target s = Some i \<Longrightarrow> i < length (messages s)"
  by (auto simp: reconcile_target_def dest: current_target_bound findLast_index_Some split: if_splits)

lemma push_tool_use_messages:
  "\<exists>ys. messages (push_tool_use t b s) = messages s @ ys"
  by (simp add: push_tool_use_def Let_def)

lemma push_tool_uses_messages:
  "\<exists>ys. messages (push_tool_uses now k bs s) = messages s @ ys"
proof (induction bs arbitrary: k s)
  case Nil
  then show ?case by simp
next
  case (Cons b bs)
  obtain ys where "messages (push_tool_use (now k) b s) = messages s @ ys"
    using push_tool_use_messages by blast
  moreover obtain zs where "messages (push_tool_uses now (Suc k) bs (push_tool_use (now k) b s))
      = messages (push_tool_use (now k) b s) @ zs"
    using Cons.IH by blast
  ultimately show ?case by simp
qed

lemma push_tool_uses_nth:
  "i < length (messages s) \<Longrightarrow>
   i < length (messages (push_tool_uses now k bs s)) \<and>
   messages (push_tool_uses now k bs s) ! i = messages s ! i"
  using push_tool_uses_messages [of now k bs s] by (auto simp: nth_append)

subsection \<open>The id discipline\<close>

lemma rebuild_as_keys: "rebuild_parentToolMap ms = fold register_key (map key ms) Map.empty"
  unfolding rebuild_parentToolMap_def
  by (rule arg_cong [where f = "\<lambda>f. f Map.empty"])
     (simp add: fold_map comp_def register_key_def key_def)

lemma is_tool_call_eq: "is_tool_call = (\<lambda>m. role m = ToolCall)"
  by (simp add: fun_eq_iff is_tool_call_def)

lemma ids_ok_as_keys:
  "ids_ok n ms pm cur =
     ((\<forall>k \<in> set (map key ms). (fst (snd k) = ToolCall \<longrightarrow> tool_id (fst k)) \<and>
                               (fst (snd k) \<noteq> ToolCall \<longrightarrow> plain_id (fst k)))
      \<and> distinct (map fst (filter (\<lambda>k. fst (snd k) = ToolCall) (map key ms)))
      \<and> pm = fold register_key (map key ms) Map.empty
      \<and> (\<forall>c. cur = Some c \<longrightarrow> (\<exists>a k. c = nextId ''stream-bg'' a k \<and> k < n))
      \<and> (\<forall>k' \<in> set (map key ms). \<forall>a k. fst k' = nextId ''stream-bg'' a k \<longrightarrow> k < n))"
  by (simp add: ids_ok_def rebuild_as_keys filter_map comp_def key_def is_tool_call_eq)

lemma ids_ok_cong: "map key ms' = map key ms \<Longrightarrow> ids_ok n ms' pm cur = ids_ok n ms pm cur"
  by (simp only: ids_ok_as_keys)

lemma key_list_update: "key m' = key (ms ! i) \<Longrightarrow> map key (ms[i := m']) = map key ms"
  by (cases "i < length ms") (simp_all add: list_eq_iff_nth_eq nth_list_update list_update_beyond not_less)

lemma key_map: "(\<And>m. key (f m) = key m) \<Longrightarrow> map key (map f ms) = map key ms"
  by simp

lemma ids_ok_mono:
  assumes "ids_ok n ms pm cur" "n \<le> n'"
  shows "ids_ok n' ms pm cur"
proof -
  have lt: "\<And>k. k < n \<Longrightarrow> k < n'" using assms(2) by simp
  show ?thesis using assms(1) unfolding ids_ok_def by (fastforce dest: lt)
qed

lemma ids_ok_cur_None: "ids_ok n ms pm cur \<Longrightarrow> ids_ok n ms pm None"
  by (simp add: ids_ok_def)

lemma nextId_plain: "plain_id (nextId ''stream-bg'' a k)" "plain_id (nextId ''sys-err'' a k)"
  by (simp_all add: plain_id_def nextId_def)

lemma tool_id_not_plain: "tool_id i \<Longrightarrow> \<not> plain_id i"
  by (cases i) (auto simp: tool_id_def plain_id_def startsWith_def)

lemma tool_id_prefix: "tool_id (''tool-'' @ x)"
  by (simp add: tool_id_def startsWith_def)

lemma strip_tool_prefix_tool: "strip_tool_prefix (''tool-'' @ x) = x"
  by (simp add: strip_tool_prefix_def startsWith_def)

lemma ids_ok_plain_not_tool:
  "ids_ok n ms pm cur \<Longrightarrow> m \<in> set ms \<Longrightarrow> plain_id (id_msg m) \<Longrightarrow> role m \<noteq> ToolCall"
  unfolding ids_ok_def using tool_id_not_plain by metis

lemma fold_register_filter:
  "(\<And>m. m \<in> set ms \<Longrightarrow> \<not> Q m \<Longrightarrow> role m \<noteq> ToolCall) \<Longrightarrow>
   fold register_key (map key (filter Q ms)) pm = fold register_key (map key ms) pm"
  by (induction ms arbitrary: pm) (auto simp: register_key_def key_def)

lemma filter_tool_filter:
  "(\<And>m. m \<in> set ms \<Longrightarrow> \<not> Q m \<Longrightarrow> role m \<noteq> ToolCall) \<Longrightarrow>
   filter is_tool_call (filter Q ms) = filter is_tool_call ms"
  by (induction ms) (auto simp: is_tool_call_def)

lemma ids_ok_filter_plain:
  assumes "ids_ok n ms pm cur" "plain_id c"
  shows "ids_ok n (filter (\<lambda>x. id_msg x \<noteq> c) ms) pm cur"
proof -
  have nt: "\<And>m. m \<in> set ms \<Longrightarrow> \<not> id_msg m \<noteq> c \<Longrightarrow> role m \<noteq> ToolCall"
    using ids_ok_plain_not_tool [OF assms(1)] assms(2) by auto
  have "rebuild_parentToolMap (filter (\<lambda>x. id_msg x \<noteq> c) ms) = rebuild_parentToolMap ms"
    unfolding rebuild_as_keys using fold_register_filter [of ms "\<lambda>x. id_msg x \<noteq> c"] nt by blast
  moreover have "filter is_tool_call (filter (\<lambda>x. id_msg x \<noteq> c) ms) = filter is_tool_call ms"
    using filter_tool_filter [of ms "\<lambda>x. id_msg x \<noteq> c"] nt by blast
  ultimately show ?thesis using assms(1) by (auto simp: ids_ok_def)
qed

lemma stream_not_other:
  "''assistant-'' @ u \<noteq> nextId ''stream-bg'' a k"
  "''tool-'' @ x \<noteq> nextId ''stream-bg'' a k"
  "nextId ''sys-err'' a' k' = nextId ''stream-bg'' a k \<longleftrightarrow> False"
  by (simp_all add: nextId_def)

lemma rebuild_append:
  "rebuild_parentToolMap (ms @ [m]) = register_key (key m) (rebuild_parentToolMap ms)"
  by (simp add: rebuild_as_keys)

lemma ids_ok_push_plain:
  assumes "ids_ok n ms pm cur" "role m \<noteq> ToolCall" "plain_id (id_msg m)"
    and "\<And>a k. id_msg m = nextId ''stream-bg'' a k \<Longrightarrow> k < n"
  shows "ids_ok n (ms @ [m]) pm cur"
  using assms by (auto simp: ids_ok_def rebuild_append register_key_def key_def is_tool_call_def)

lemma ids_ok_push_tool:
  assumes "ids_ok n ms pm cur" "role m = ToolCall" "id_msg m = ''tool-'' @ x"
    and "\<not> list_ex (has_id (id_msg m)) ms"
  shows "ids_ok n (ms @ [m])
           (if subagentSteps m \<noteq> None then pm(x \<mapsto> ''tool-'' @ x) else pm) cur"
  using assms
  by (auto simp: ids_ok_def rebuild_append register_key_def key_def is_tool_call_def
      tool_id_def startsWith_def strip_tool_prefix_def nextId_def list_ex_iff has_id_def)

lemma ids_ok_cur_Some:
  "ids_ok n ms pm cur \<Longrightarrow> k < n \<Longrightarrow> ids_ok n ms pm (Some (nextId ''stream-bg'' a k))"
  by (auto simp: ids_ok_def)

lemma ids_ok_update:
  "ids_ok n ms pm cur \<Longrightarrow> key m' = key (ms ! i) \<Longrightarrow> ids_ok n (ms[i := m']) pm cur"
  using ids_ok_cong [OF key_list_update] by blast

lemma ids_ok_map:
  "ids_ok n ms pm cur \<Longrightarrow> (\<And>m. key (f m) = key m) \<Longrightarrow> ids_ok n (map f ms) pm cur"
  using ids_ok_cong [OF key_map] by blast

lemma key_simps [simp]:
  "key (m\<lparr>content := c\<rparr>) = key m"
  "key (m\<lparr>thinking := th\<rparr>) = key m"
  "key (m\<lparr>thinkingComplete := tc\<rparr>) = key m"
  "key (m\<lparr>isStreaming := st\<rparr>) = key m"
  "key (m\<lparr>toolResult := tr\<rparr>) = key m"
  "key (m\<lparr>toolError := te\<rparr>) = key m"
  "key (m\<lparr>subagentStatus := ss\<rparr>) = key m"
  "key (m\<lparr>subagentId := si\<rparr>) = key m"
  "key (m\<lparr>subagentDurationMs := sd\<rparr>) = key m"
  "key (m\<lparr>subagentTokens := sk\<rparr>) = key m"
  "key (finish_thinking m) = key m"
  by (simp_all add: key_def finish_thinking_def)

lemma ids_ok_push_stream:
  assumes "ids_ok n ms pm cur"
  shows "ids_ok (Suc n) (ms @ [streaming_msg (nextId ''stream-bg'' a n) t]) pm
           (Some (nextId ''stream-bg'' a n))"
proof -
  have "ids_ok (Suc n) ms pm cur" using assms by (rule ids_ok_mono) simp
  then have "ids_ok (Suc n) (ms @ [streaming_msg (nextId ''stream-bg'' a n) t]) pm cur"
    by (rule ids_ok_push_plain)
       (auto simp: streaming_msg_def base_msg_def nextId_plain dest: nextId_counter_inj)
  then show ?thesis by (rule ids_ok_cur_Some) simp
qed

lemma current_target_id:
  "current_target s = Some i \<Longrightarrow>
   i < length (messages s) \<and> currentStreamingMsgId s = Some (id_msg (messages s ! i))"
  by (auto simp: current_target_def has_id_def split: option.splits dest: find_index_Some)

lemma ids_inv_current_plain:
  "ids_inv n s \<Longrightarrow> currentStreamingMsgId s = Some c \<Longrightarrow> plain_id c"
  by (auto simp: ids_inv_def ids_ok_def nextId_plain)

lemma current_target_plain:
  "ids_inv n s \<Longrightarrow> current_target s = Some i \<Longrightarrow> plain_id (id_msg (messages s ! i))"
  using current_target_id ids_inv_current_plain by blast

lemma handleStreamEvent_ids_inv:
  assumes "ids_inv cnt s"
  shows "ids_inv (snd (handleStreamEvent now cnt ev s)) (fst (handleStreamEvent now cnt ev s))
         \<and> cnt \<le> snd (handleStreamEvent now cnt ev s)"
proof (cases ev)
  case MessageStart
  then show ?thesis using assms ids_ok_push_stream
    by (simp add: handleStreamEvent_def ids_inv_def Let_def)
next
  case (ContentBlockDelta d)
  show ?thesis
  proof (cases "current_target s")
    case None
    then show ?thesis using assms ContentBlockDelta by (simp add: handleStreamEvent_def)
  next
    case (Some i)
    then show ?thesis using assms ContentBlockDelta
      by (cases d) (simp_all add: handleStreamEvent_def ids_inv_def Let_def ids_ok_update)
  qed
next
  case MessageDelta
  show ?thesis
  proof (cases "current_target s")
    case None
    then show ?thesis using assms MessageDelta
      by (auto simp: handleStreamEvent_def ids_inv_def intro: ids_ok_cur_None)
  next
    case (Some i)
    note p = current_target_plain [OF assms Some]
    show ?thesis using assms MessageDelta Some p
      by (auto simp: handleStreamEvent_def ids_inv_def Let_def
          intro!: ids_ok_cur_None ids_ok_update ids_ok_filter_plain)
  qed
next
  case MessageStop
  then show ?thesis using assms
    by (auto simp: handleStreamEvent_def ids_inv_def intro: ids_ok_cur_None)
next
  case OtherStream
  then show ?thesis using assms by (simp add: handleStreamEvent_def)
qed

lemma reconcile_target_plain:
  assumes "ids_inv n s" "reconcile_target s = Some i"
  shows "plain_id (id_msg (messages s ! i))"
proof (cases "truthy_str (currentStreamingMsgId s)")
  case True
  then show ?thesis using assms current_target_plain by (simp add: reconcile_target_def)
next
  case False
  then have "findLast_index streaming_assistant (messages s) = Some i"
    using assms(2) by (simp add: reconcile_target_def)
  then have "i < length (messages s)" "role (messages s ! i) = Assistant"
    using findLast_index_Some [of streaming_assistant "messages s" i]
    by (auto simp: streaming_assistant_def)
  then show ?thesis using assms(1) by (auto simp: ids_inv_def ids_ok_def)
qed

lemma assistant_id_plain: "plain_id (''assistant-'' @ u)"
  by (simp add: plain_id_def)

lemma reconcile_assistant_ids_inv:
  assumes "ids_inv n s"
  shows "ids_inv n (reconcile_assistant t e s)"
proof (cases "reconcile_target s")
  case None
  have "ids_ok n (messages s @ [m]) (parentToolMap s) (currentStreamingMsgId s)"
    if "role m = Assistant" "id_msg m = ''assistant-'' @ uuid e" for m
    using assms that
    by (auto simp: ids_inv_def plain_id_def nextId_def intro!: ids_ok_push_plain)
  then show ?thesis using None assms
    by (simp add: reconcile_assistant_def ids_inv_def base_msg_def)
next
  case (Some i)
  note p = reconcile_target_plain [OF assms Some]
  show ?thesis using assms Some p
    by (auto simp: reconcile_assistant_def ids_inv_def Let_def
        intro!: ids_ok_update ids_ok_filter_plain)
qed

lemma push_tool_use_ids_inv:
  assumes "ids_inv n s"
  shows "ids_inv n (push_tool_use t b s)"
proof (cases "list_ex (has_id (''tool-'' @ tu_id b)) (messages s)")
  case True
  then show ?thesis using assms by (simp add: push_tool_use_def)
next
  case False
  have "ids_ok n (messages s @ [tool_msg t b])
          (if subagentSteps (tool_msg t b) \<noteq> None
           then (parentToolMap s)(tu_id b \<mapsto> ''tool-'' @ tu_id b) else parentToolMap s)
          (currentStreamingMsgId s)"
    using assms False
    by (intro ids_ok_push_tool) (simp_all add: ids_inv_def tool_msg_def base_msg_def Let_def)
  then show ?thesis using False
    by (auto simp: push_tool_use_def ids_inv_def Let_def tool_msg_def base_msg_def split: if_splits)
qed

lemma push_tool_uses_ids_inv: "ids_inv n s \<Longrightarrow> ids_inv n (push_tool_uses now k bs s)"
  by (induction bs arbitrary: k s) (simp_all add: push_tool_use_ids_inv)

lemma attach_tool_result_key [simp]: "key (attach_tool_result tr m) = key m"
  by (simp add: attach_tool_result_def split: option.splits)

lemma handleTopLevel_ids_inv:
  assumes "ids_inv cnt s"
  shows "ids_inv (fst (snd (handleTopLevel now sid cnt b s))) (fst (handleTopLevel now sid cnt b s))
         \<and> cnt \<le> fst (snd (handleTopLevel now sid cnt b s))"
proof (cases b)
  case (SystemEvt e)
  then show ?thesis using assms by (simp add: handleTopLevel_def ids_inv_def)
next
  case (StreamEvt e)
  then show ?thesis using handleStreamEvent_ids_inv [OF assms, of now e]
    by (simp add: handleTopLevel_def split_beta)
next
  case (AssistantEvt e)
  then show ?thesis using assms
    by (simp add: handleTopLevel_def push_tool_uses_ids_inv reconcile_assistant_ids_inv)
next
  case (UserEvt tr)
  then show ?thesis using assms
    by (cases tr) (simp_all add: handleTopLevel_def ids_inv_def ids_ok_map)
next
  case (ResultEvt r)
  have "ids_ok (Suc cnt) (messages s @ [m]) (parentToolMap s) (currentStreamingMsgId s)"
    if "role m = System" "id_msg m = nextId ''sys-err'' (now 0) cnt" for m
  proof -
    have "ids_ok (Suc cnt) (messages s) (parentToolMap s) (currentStreamingMsgId s)"
      using assms unfolding ids_inv_def by (rule ids_ok_mono) simp
    then show ?thesis using that
      by (intro ids_ok_push_plain) (auto simp: nextId_plain dest: nextId_counter_inj)
  qed
  then show ?thesis using ResultEvt assms
    by (simp add: handleTopLevel_def ids_inv_def Let_def base_msg_def)
next
  case OtherEvt
  then show ?thesis using assms by (simp add: handleTopLevel_def)
qed

lemma fold_register_values:
  "fold register_key ks pm x = Some v \<Longrightarrow> pm x = Some v \<or> (v, ToolCall, True) \<in> set ks"
proof (induction ks arbitrary: pm)
  case Nil
  then show ?case by simp
next
  case (Cons k ks)
  from Cons.IH [of "register_key k pm"] Cons.prems
  have "register_key k pm x = Some v \<or> (v, ToolCall, True) \<in> set ks" by simp
  then show ?case
    by (cases k) (auto simp: register_key_def split: if_splits)
qed

lemma task_msg_key:
  assumes "ids_ok n ms pm cur" "pm p = Some t" "k \<in> set (map key ms)" "fst k = t"
  shows "k = (t, ToolCall, True)"
proof -
  have "(t, ToolCall, True) \<in> set (map key ms)"
    using assms(1,2) fold_register_values [of "map key ms" Map.empty p t]
    by (simp add: ids_ok_def rebuild_as_keys)
  then obtain m0 where m0: "m0 \<in> set ms" "id_msg m0 = t" "role m0 = ToolCall" "subagentSteps m0 \<noteq> None"
    by (auto simp: key_def)
  from assms(3,4) obtain m where m: "m \<in> set ms" "key m = k" "id_msg m = t"
    by (auto simp: key_def)
  have "tool_id t" using assms(1) m0 by (auto simp: ids_ok_def)
  then have "role m = ToolCall" using assms(1) m tool_id_not_plain by (auto simp: ids_ok_def)
  moreover have "inj_on id_msg (set (filter is_tool_call ms))"
    using assms(1) by (simp add: ids_ok_def distinct_map)
  ultimately have "m = m0" using m m0 by (auto simp: inj_on_def is_tool_call_def)
  then show ?thesis using m m0 by (auto simp: key_def)
qed

lemma append_step_key:
  "(fst (key m) = t \<longrightarrow> key m = (t, ToolCall, True)) \<Longrightarrow> key (append_step t blk m) = key m"
  by (auto simp: append_step_def key_def)

lemma attach_step_result_key:
  "(fst (key m) = t \<longrightarrow> key m = (t, ToolCall, True)) \<Longrightarrow> key (attach_step_result t u r m) = key m"
  by (auto simp: attach_step_result_def key_def)

lemma key_map_set: "(\<And>m. m \<in> set ms \<Longrightarrow> key (f m) = key m) \<Longrightarrow> map key (map f ms) = map key ms"
  by simp

lemma fold_append_step_keys:
  assumes "\<forall>k \<in> set (map key (messages s)). fst k = t \<longrightarrow> k = (t, ToolCall, True)"
  shows "map key (messages (fold (\<lambda>blk s'. s'\<lparr>messages := map (append_step t blk) (messages s')\<rparr>) bs s))
           = map key (messages s)
       \<and> parentToolMap (fold (\<lambda>blk s'. s'\<lparr>messages := map (append_step t blk) (messages s')\<rparr>) bs s)
           = parentToolMap s
       \<and> currentStreamingMsgId (fold (\<lambda>blk s'. s'\<lparr>messages := map (append_step t blk) (messages s')\<rparr>) bs s)
           = currentStreamingMsgId s"
  using assms
proof (induction bs arbitrary: s)
  case Nil
  then show ?case by simp
next
  case (Cons b bs)
  let ?s1 = "s\<lparr>messages := map (append_step t b) (messages s)\<rparr>"
  have k: "map key (messages ?s1) = map key (messages s)"
    using Cons.prems by (auto intro!: append_step_key)
  then have "\<forall>k \<in> set (map key (messages ?s1)). fst k = t \<longrightarrow> k = (t, ToolCall, True)"
    using Cons.prems by simp
  from Cons.IH [OF this] k show ?case by simp
qed

lemma handleSubagentEvent_ids_inv:
  assumes "ids_inv n s"
  shows "ids_inv n (handleSubagentEvent s b p)"
proof (cases "parentToolMap s p")
  case None
  then show ?thesis using assms by (simp add: handleSubagentEvent_def)
next
  case (Some t)
  have tk: "\<forall>k \<in> set (map key (messages s)). fst k = t \<longrightarrow> k = (t, ToolCall, True)"
    using task_msg_key [of n "messages s" "parentToolMap s" "currentStreamingMsgId s" p t] assms Some
    unfolding ids_inv_def by blast
  show ?thesis
  proof (cases b)
    case (AssistantEvt e)
    then show ?thesis using assms Some fold_append_step_keys [OF tk, of "tool_uses e"]
      by (auto simp: handleSubagentEvent_def ids_inv_def dest: ids_ok_cong)
  next
    case (UserEvt tr)
    have k: "map key (map (attach_step_result t u r) (messages s)) = map key (messages s)" for u r
      using tk by (auto intro!: attach_step_result_key)
    have "ids_ok n (map (attach_step_result t u r) (messages s)) (parentToolMap s)
            (currentStreamingMsgId s)" for u r
      using assms ids_ok_cong [OF k] by (simp only: ids_inv_def)
    then show ?thesis using assms Some UserEvt
      by (cases tr) (simp_all add: handleSubagentEvent_def ids_inv_def)
  qed (use assms Some in \<open>simp_all add: handleSubagentEvent_def\<close>)
qed

lemma closePending_ids_inv: "ids_inv n s \<Longrightarrow> ids_inv n (closePendingACPTools s)"
  by (simp add: closePendingACPTools_def ids_inv_def ids_ok_map)

lemma ensure_ids_inv:
  assumes "ids_inv cnt s"
  shows "ids_inv (snd (ensureACPStreamingMsg now cnt s)) (fst (ensureACPStreamingMsg now cnt s))
         \<and> cnt \<le> snd (ensureACPStreamingMsg now cnt s)"
  using assms ids_ok_push_stream
  by (simp add: ensureACPStreamingMsg_def ids_inv_def Let_def)

lemma finalize_ids_inv: "ids_inv n s \<Longrightarrow> ids_inv n (finalizeACPStreamingMsg s)"
  by (auto simp: finalizeACPStreamingMsg_def ids_inv_def split: option.splits
      intro!: ids_ok_cur_None ids_ok_update)

lemma update_target_ids_inv:
  "ids_inv n s \<Longrightarrow> key m' = key (messages s ! i) \<Longrightarrow> ids_inv n (s\<lparr>messages := (messages s)[i := m']\<rparr>)"
  by (simp add: ids_inv_def ids_ok_update)

lemma handleACPUpdate_ids_inv:
  assumes "ids_inv cnt s"
  shows "ids_inv (snd (handleACPUpdate now cnt u s)) (fst (handleACPUpdate now cnt u s))
         \<and> cnt \<le> snd (handleACPUpdate now cnt u s)"
proof -
  let ?c = "closePendingACPTools s"
  note c = closePending_ids_inv [OF assms]
  note e = ensure_ids_inv [OF c, of now]
  show ?thesis
  proof (cases u)
    case (AgentMessageChunk x)
    then show ?thesis using c e
      by (auto simp: handleACPUpdate_def Let_def split_beta split: option.splits
          intro!: update_target_ids_inv)
  next
    case (AgentThoughtChunk x)
    then show ?thesis using c e
      by (auto simp: handleACPUpdate_def Let_def split_beta split: option.splits
          intro!: update_target_ids_inv)
  next
    case (ToolCallOpen tc)
    let ?f = "finalizeACPStreamingMsg ?c"
    note f = finalize_ids_inv [OF c]
    show ?thesis
    proof (cases "list_ex (has_id (''tool-'' @ toolCallId tc)) (messages ?f)")
      case True
      then show ?thesis using ToolCallOpen f by (simp add: handleACPUpdate_def)
    next
      case False
      have "ids_ok cnt (messages ?f @ [acp_tool_msg (now 0) tc])
          (if subagentSteps (acp_tool_msg (now 0) tc) \<noteq> None
           then (parentToolMap ?f)(toolCallId tc \<mapsto> ''tool-'' @ toolCallId tc) else parentToolMap ?f)
          (currentStreamingMsgId ?f)"
        using f False
        by (intro ids_ok_push_tool) (simp_all add: ids_inv_def acp_tool_msg_def base_msg_def Let_def)
      then show ?thesis using ToolCallOpen False
        by (simp add: handleACPUpdate_def ids_inv_def acp_tool_msg_def base_msg_def Let_def)
    qed
  next
    case (ToolCallUpdate tc)
    then show ?thesis using assms
      by (auto simp: handleACPUpdate_def Let_def split: option.splits
          intro!: update_target_ids_inv)
  next
    case (UsageUpdate x)
    then show ?thesis using assms
      by (cases x) (simp_all add: handleACPUpdate_def ids_inv_def)
  next
    case OtherUpdate
    then show ?thesis using assms by (simp add: handleACPUpdate_def)
  qed
qed

lemma ids_inv_mono: "ids_inv n s \<Longrightarrow> n \<le> n' \<Longrightarrow> ids_inv n' s"
  unfolding ids_inv_def by (rule ids_ok_mono)

lemma ids_inv_empty: "ids_inv n empty_state"
  by (simp add: ids_inv_def ids_ok_def empty_state_def rebuild_parentToolMap_def)

lemma getOrCreate_ids_inv: "store_inv st \<Longrightarrow> ids_inv (idCounter st) (getOrCreate sid st)"
  by (auto simp: store_inv_def getOrCreate_def ids_inv_empty split: option.splits)

lemma store_inv_update:
  assumes "store_inv st" "ids_inv n s'" "idCounter st \<le> n"
  shows "store_inv (st\<lparr>sessions := (sessions st)(sid \<mapsto> s'), idCounter := n\<rparr>)"
  using assms by (auto simp: store_inv_def intro: ids_inv_mono)

lemma store_inv_update_same:
  assumes "store_inv st" "ids_inv (idCounter st) s'"
  shows "store_inv (st\<lparr>sessions := (sessions st)(sid \<mapsto> s')\<rparr>)"
  using assms by (auto simp: store_inv_def)

lemma store_inv_update_notif:
  assumes "store_inv st" "ids_inv n s'" "idCounter st \<le> n"
  shows "store_inv (st\<lparr>sessions := (sessions st)(sid \<mapsto> s'), idCounter := n, notifications := ns\<rparr>)"
  using assms by (auto simp: store_inv_def intro: ids_inv_mono)

lemma handleEvent_store_inv:
  assumes "store_inv st"
  shows "store_inv (handleEvent now ev st)"
proof (cases "ev_sessionId ev")
  case None
  then show ?thesis using assms by (simp add: handleEvent_def)
next
  case (Some sid)
  note g = getOrCreate_ids_inv [OF assms, of sid]
  note t = handleTopLevel_ids_inv [OF g, of now sid "body ev"]
  have "store_inv (st\<lparr>sessions := (sessions st)(sid \<mapsto> handleSubagentEvent (getOrCreate sid st) (body ev) p)\<rparr>)" for p
    using store_inv_update_same [OF assms handleSubagentEvent_ids_inv [OF g]] by blast
  moreover have "store_inv (st\<lparr>sessions := (sessions st)(sid \<mapsto> fst (handleTopLevel now sid (idCounter st) (body ev) (getOrCreate sid st))),
       idCounter := fst (snd (handleTopLevel now sid (idCounter st) (body ev) (getOrCreate sid st))),
       notifications := ns\<rparr>)" for ns
    using store_inv_update_notif [OF assms] t by blast
  ultimately show ?thesis using Some assms
    by (simp add: handleEvent_def Let_def split_beta)
qed

lemma handleACPEvent_store_inv:
  assumes "store_inv st"
  shows "store_inv (handleACPEvent now ev st)"
proof (cases "acp_sessionId ev")
  case None
  then show ?thesis using assms by (simp add: handleACPEvent_def)
next
  case (Some sid)
  have g: "ids_inv (idCounter st) ((getOrCreate sid st)\<lparr>isConnected := True\<rparr>)"
    using getOrCreate_ids_inv [OF assms, of sid] by (simp add: ids_inv_def)
  note t = handleACPUpdate_ids_inv [OF g, of now "update ev"]
  show ?thesis using Some assms store_inv_update [OF assms] t
    by (simp add: handleACPEvent_def Let_def split_beta)
qed

lemma handleACPTurnComplete_store_inv:
  assumes "store_inv st"
  shows "store_inv (handleACPTurnComplete sid st)"
proof (cases "sessions st sid")
  case None
  then show ?thesis using assms by (simp add: handleACPTurnComplete_def)
next
  case (Some s)
  then have "ids_inv (idCounter st) s" using assms by (simp add: store_inv_def)
  then have "ids_inv (idCounter st) ((closePendingACPTools (finalizeACPStreamingMsg s))\<lparr>isProcessing := False\<rparr>)"
    using closePending_ids_inv [OF finalize_ids_inv] by (simp add: ids_inv_def)
  then show ?thesis using Some assms
    by (auto simp: handleACPTurnComplete_def store_inv_def)
qed

lemma ingest_store_inv: "store_inv st \<Longrightarrow> store_inv (ingest i st)"
  by (cases i) (simp_all add: handleEvent_store_inv handleACPEvent_store_inv handleACPTurnComplete_store_inv)

lemma ingest_all_store_inv: "store_inv st \<Longrightarrow> store_inv (ingest_all evs st)"
  unfolding ingest_all_def by (induction evs arbitrary: st) (simp_all add: ingest_store_inv)

lemma store_inv_empty: "store_inv empty_store"
  by (simp add: store_inv_def empty_store_def)

subsection \<open>Consume and seed\<close>

lemma reachable_parentToolMap:
  "sessions (ingest_all evs empty_store) sid = Some s \<Longrightarrow>
   parentToolMap s = rebuild_parentToolMap (messages s)"
  using ingest_all_store_inv [OF store_inv_empty, of evs]
  by (auto simp: store_inv_def ids_inv_def ids_ok_def)

lemma fun_upd_Some_eq: "m k = Some v \<Longrightarrow> (m(k \<mapsto> v') = m) = (v' = v)"
  by (metis fun_upd_same fun_upd_triv option.inject)

text \<open>
  C4 (amended). For every session state reached by an ingestion sequence, consume
  followed by seed with the returned state reproduces the store entry with the same
  transcript, the same scalar fields and the same parent-correlation mapping; the
  current-streaming pointer is detected anew, as the id of the last assistant message
  whose streaming flag is set. The store is reproduced exactly if and only if the
  original pointer was that id.
\<close>

theorem consume_seed_roundtrip:
  assumes "sessions (ingest_all evs empty_store) sid = Some s"
  shows "fst (consume sid (ingest_all evs empty_store)) = Some (public_state s)
    \<and> consume_then_seed sid (ingest_all evs empty_store)
        = (ingest_all evs empty_store)
            \<lparr>sessions := (sessions (ingest_all evs empty_store))
               (sid \<mapsto> s\<lparr>currentStreamingMsgId := detect_streaming (messages s)\<rparr>)\<rparr>
    \<and> (consume_then_seed sid (ingest_all evs empty_store) = ingest_all evs empty_store
         \<longleftrightarrow> currentStreamingMsgId s = detect_streaming (messages s))"
proof -
  let ?st = "ingest_all evs empty_store"
  let ?s' = "s\<lparr>currentStreamingMsgId := detect_streaming (messages s)\<rparr>"
  note pm = reachable_parentToolMap [OF assms]
  have s': "\<lparr>messages = messages s, isProcessing = isProcessing s,
              isConnected = isConnected s, sessionInfo = sessionInfo s,
              totalCost = totalCost s, pendingPermission = pendingPermission s,
              rawAcpPermission = rawAcpPermission s,
              parentToolMap = rebuild_parentToolMap (messages s),
              currentStreamingMsgId = detect_streaming (messages s)\<rparr> = ?s'"
    using pm by (cases s) simp
  have c: "consume_then_seed sid ?st = ?st\<lparr>sessions := (sessions ?st)(sid \<mapsto> ?s')\<rparr>"
    using assms s' by (simp add: consume_then_seed_def consume_def initFromState_def public_state_def)
  have "(?st\<lparr>sessions := (sessions ?st)(sid \<mapsto> ?s')\<rparr> = ?st) = ((sessions ?st)(sid \<mapsto> ?s') = sessions ?st)"
    by (cases ?st) auto
  also have "\<dots> = (?s' = s)" using assms by (rule fun_upd_Some_eq)
  also have "\<dots> = (currentStreamingMsgId s = detect_streaming (messages s))"
    by (cases s) auto
  finally show ?thesis using c assms by (simp add: consume_def)
qed

theorem consume_seed_roundtrip_witness:
  "sessions (ingest_all open_stream empty_store) ''s''
     = Some (getOrCreate ''s'' (ingest_all open_stream empty_store))
   \<and> consume_then_seed ''s'' (ingest_all open_stream empty_store) = ingest_all open_stream empty_store
   \<and> currentStreamingMsgId (getOrCreate ''s'' (ingest_all open_stream empty_store)) = Some ''stream-bg-0-0''"
proof -
  have h: "sessions (ingest_all open_stream empty_store) ''s''
     = Some (getOrCreate ''s'' (ingest_all open_stream empty_store))"
    by (simp add: open_stream_def stream_eval)
  have d: "currentStreamingMsgId (getOrCreate ''s'' (ingest_all open_stream empty_store))
     = detect_streaming (messages (getOrCreate ''s'' (ingest_all open_stream empty_store)))"
    by (simp add: open_stream_def stream_eval detect_streaming_def finish_thinking_def)
  have c: "currentStreamingMsgId (getOrCreate ''s'' (ingest_all open_stream empty_store)) = Some ''stream-bg-0-0''"
    by (simp add: open_stream_def stream_eval finish_thinking_def)
  from consume_seed_roundtrip [OF h] d
  have "consume_then_seed ''s'' (ingest_all open_stream empty_store) = ingest_all open_stream empty_store"
    by blast
  then show ?thesis using h c by simp
qed

text \<open>
  After message-start and message-stop the pointer is empty while the message still has
  its streaming flag: consume and seed restore a pointer to that message. After
  message-start and an empty finalized event the message is pruned and the pointer still
  names it: consume and seed restore an empty pointer.
\<close>

theorem restored_pointer_counterexample:
  "currentStreamingMsgId (getOrCreate ''s'' stopped_stream) = None
   \<and> currentStreamingMsgId (getOrCreate ''s'' (consume_then_seed ''s'' stopped_stream))
       = Some ''stream-bg-0-0''
   \<and> currentStreamingMsgId (getOrCreate ''s'' pruned_stream) = Some ''stream-bg-0-0''
   \<and> currentStreamingMsgId (getOrCreate ''s'' (consume_then_seed ''s'' pruned_stream)) = None"
  by (simp add: stopped_stream_def pruned_stream_def silent_assistant_def stream_eval
      consume_then_seed_def consume_def initFromState_def public_state_def detect_streaming_def)

subsection \<open>Tool-use requests already represented\<close>

lemma filter_list_update_other:
  "\<not> P (xs ! i) \<Longrightarrow> \<not> P x' \<Longrightarrow> filter P (xs[i := x']) = filter P xs"
proof (induction xs arbitrary: i)
  case Nil
  then show ?case by simp
next
  case (Cons x xs)
  then show ?case by (cases i) auto
qed

lemma ids_inv_plain_not_tool:
  "ids_inv n s \<Longrightarrow> m \<in> set (messages s) \<Longrightarrow> plain_id (id_msg m) \<Longrightarrow> \<not> is_tool_call m"
  unfolding ids_inv_def is_tool_call_def by (rule ids_ok_plain_not_tool)

lemma reconcile_assistant_tool_calls:
  assumes "ids_inv n s"
  shows "tool_calls (messages (reconcile_assistant t e s)) = tool_calls (messages s)"
proof (cases "reconcile_target s")
  case None
  then show ?thesis
    by (simp add: reconcile_assistant_def tool_calls_def is_tool_call_def base_msg_def)
next
  case (Some i)
  let ?m = "messages s ! i"
  have i: "i < length (messages s)" using Some by (rule reconcile_target_bound)
  note p = reconcile_target_plain [OF assms Some]
  have nt: "\<not> is_tool_call ?m" using ids_inv_plain_not_tool [OF assms _ p] i by simp
  have upd: "filter is_tool_call ((messages s)[i := m']) = filter is_tool_call (messages s)"
    if "role m' = role ?m" for m'
    using nt that by (intro filter_list_update_other) (simp_all add: is_tool_call_def)
  have flt: "filter is_tool_call (filter (\<lambda>x. id_msg x \<noteq> id_msg ?m) ((messages s)[i := m']))
      = filter is_tool_call ((messages s)[i := m'])"
    if "key m' = key ?m" for m'
  proof -
    have "ids_inv n (s\<lparr>messages := (messages s)[i := m']\<rparr>)"
      using assms that by (rule update_target_ids_inv)
    then show ?thesis
      using ids_inv_plain_not_tool [of n "s\<lparr>messages := (messages s)[i := m']\<rparr>"] p
      by (intro filter_tool_filter) (auto simp: is_tool_call_def)
  qed
  define m2 where "m2 =
     (if thinkingContent e \<noteq> []
      then ?m\<lparr>content := (if textContent e \<noteq> [] then textContent e else content ?m),
              thinking := Some (thinkingContent e), thinkingComplete := Some True\<rparr>
      else ?m\<lparr>content := (if textContent e \<noteq> [] then textContent e else content ?m)\<rparr>)"
  have k: "key m2 = key ?m" "role m2 = role ?m" "id_msg m2 = id_msg ?m"
    by (simp_all add: m2_def)
  have eq: "messages (reconcile_assistant t e s) =
      (if empty_turn m2 then filter (\<lambda>x. id_msg x \<noteq> id_msg ?m) ((messages s)[i := m2])
       else (messages s)[i := m2])"
    using Some by (simp add: reconcile_assistant_def Let_def m2_def)
  show ?thesis unfolding eq tool_calls_def using upd [OF k(2)] flt [OF k(1)]
    by (simp del: filter_filter)
qed

lemma has_tool_id_in_tool_calls:
  assumes "ids_inv n s"
  shows "list_ex (has_id (''tool-'' @ x)) (messages s)
         \<longleftrightarrow> list_ex (has_id (''tool-'' @ x)) (tool_calls (messages s))"
proof -
  have "is_tool_call m" if "m \<in> set (messages s)" "id_msg m = ''tool-'' @ x" for m
  proof -
    have "role m = ToolCall \<or> plain_id (id_msg m)"
      using assms that(1) by (auto simp: ids_inv_def ids_ok_def)
    then show ?thesis using that(2) by (auto simp: is_tool_call_def plain_id_def)
  qed
  then show ?thesis by (auto simp: list_ex_iff tool_calls_def has_id_def)
qed

lemma push_tool_uses_noop:
  "\<forall>b \<in> set bs. list_ex (has_id (''tool-'' @ tu_id b)) (messages s) \<Longrightarrow>
   push_tool_uses now k bs s = s"
  by (induction bs arbitrary: k) (simp_all add: push_tool_use_def)

lemma push_tool_use_represented:
  "list_ex (has_id (''tool-'' @ tu_id b)) (messages (push_tool_use t b s))"
  by (simp add: push_tool_use_def Let_def tool_msg_def base_msg_def has_id_def)

lemma push_tool_uses_represented:
  "\<forall>b \<in> set bs. list_ex (has_id (''tool-'' @ tu_id b)) (messages (push_tool_uses now k bs s))"
proof (induction bs arbitrary: k s)
  case Nil
  then show ?case by simp
next
  case (Cons b bs)
  obtain ys where "messages (push_tool_uses now (Suc k) bs (push_tool_use (now k) b s))
      = messages (push_tool_use (now k) b s) @ ys"
    using push_tool_uses_messages by blast
  then have "list_ex (has_id (''tool-'' @ tu_id b))
      (messages (push_tool_uses now (Suc k) bs (push_tool_use (now k) b s)))"
    using push_tool_use_represented [of b "now k" s] by simp
  then show ?case using Cons.IH by simp
qed

lemma assistant_event_session:
  "sid \<noteq> [] \<Longrightarrow>
   getOrCreate sid (handleEvent now (topEv sid (AssistantEvt e)) st)
     = push_tool_uses now 1 (tool_uses e) (reconcile_assistant (now 0) e (getOrCreate sid st))"
  by (simp add: handleEvent_def topEv_def handleTopLevel_def truthy_str_def getOrCreate_def)

lemma represented_no_change:
  assumes "ids_inv n s"
    and "\<forall>b \<in> set (tool_uses e). list_ex (has_id (''tool-'' @ tu_id b)) (messages s)"
  shows "tool_calls (messages (push_tool_uses now k (tool_uses e) (reconcile_assistant t e s)))
           = tool_calls (messages s)
       \<and> parentToolMap (push_tool_uses now k (tool_uses e) (reconcile_assistant t e s))
           = parentToolMap s"
proof -
  let ?r = "reconcile_assistant t e s"
  note r = reconcile_assistant_ids_inv [OF assms(1), of t e]
  note tc = reconcile_assistant_tool_calls [OF assms(1), of t e]
  have "\<forall>b \<in> set (tool_uses e). list_ex (has_id (''tool-'' @ tu_id b)) (messages ?r)"
    using assms(2) has_tool_id_in_tool_calls [OF assms(1)] has_tool_id_in_tool_calls [OF r] tc
    by simp
  then have "push_tool_uses now k (tool_uses e) ?r = ?r" by (rule push_tool_uses_noop)
  moreover have "parentToolMap ?r = parentToolMap s"
    by (simp add: reconcile_assistant_def Let_def split: option.splits)
  ultimately show ?thesis using tc by simp
qed

text \<open>
  C10. In a state reached by ingestion, a finalized assistant event whose tool-use
  requests all have their \<open>tool_call\<close> message already leaves the tool-call messages of
  the transcript unchanged; delivering any finalized event a second time leaves the
  tool-call messages as the first delivery left them; and after any finalized event no
  two tool-call messages have the same id.
\<close>

theorem repeated_tool_use_no_duplicate:
  assumes "sid \<noteq> []"
  shows "((\<forall>b \<in> set (tool_uses e).
             list_ex (has_id (''tool-'' @ tu_id b))
               (messages (getOrCreate sid (ingest_all evs empty_store)))) \<longrightarrow>
          tool_calls (messages (getOrCreate sid
              (handleEvent now (topEv sid (AssistantEvt e)) (ingest_all evs empty_store))))
            = tool_calls (messages (getOrCreate sid (ingest_all evs empty_store))))
     \<and> tool_calls (messages (getOrCreate sid
          (handleEvent now' (topEv sid (AssistantEvt e))
            (handleEvent now (topEv sid (AssistantEvt e)) (ingest_all evs empty_store)))))
        = tool_calls (messages (getOrCreate sid
            (handleEvent now (topEv sid (AssistantEvt e)) (ingest_all evs empty_store))))
     \<and> distinct (map id_msg (tool_calls (messages (getOrCreate sid
          (handleEvent now (topEv sid (AssistantEvt e)) (ingest_all evs empty_store))))))"
proof -
  let ?st = "ingest_all evs empty_store"
  let ?st1 = "handleEvent now (topEv sid (AssistantEvt e)) ?st"
  have inv: "store_inv ?st" using store_inv_empty by (rule ingest_all_store_inv)
  then have inv1: "store_inv ?st1" by (rule handleEvent_store_inv)
  note g = getOrCreate_ids_inv [OF inv, of sid]
  note g1 = getOrCreate_ids_inv [OF inv1, of sid]
  have rep: "\<forall>b \<in> set (tool_uses e). list_ex (has_id (''tool-'' @ tu_id b)) (messages (getOrCreate sid ?st1))"
    using assms push_tool_uses_represented by (simp add: assistant_event_session)
  have d: "distinct (map id_msg (tool_calls (messages (getOrCreate sid ?st1))))"
    using g1 by (simp add: ids_inv_def ids_ok_def tool_calls_def)
  show ?thesis
    using represented_no_change [OF g, of e now 1 "now 0"]
      represented_no_change [OF g1 rep, of now' 1 "now' 0"] assms d
    by (simp add: assistant_event_session)
qed

theorem repeated_tool_use_no_duplicate_witness:
  "''s'' \<noteq> []
   \<and> list_ex (has_id (''tool-'' @ ''t1''))
       (messages (getOrCreate ''s''
          (ingest_all [ProtocolA (fixed_clock 0) (topEv ''s'' (AssistantEvt read_request))] empty_store)))
   \<and> length (tool_calls (messages (getOrCreate ''s''
        (ingest_all [ProtocolA (fixed_clock 0) (topEv ''s'' (AssistantEvt read_request))] empty_store)))) = 1
   \<and> tool_calls (messages (getOrCreate ''s''
        (handleEvent (fixed_clock 1) (topEv ''s'' (AssistantEvt read_request))
          (ingest_all [ProtocolA (fixed_clock 0) (topEv ''s'' (AssistantEvt read_request))] empty_store))))
      = tool_calls (messages (getOrCreate ''s''
        (ingest_all [ProtocolA (fixed_clock 0) (topEv ''s'' (AssistantEvt read_request))] empty_store)))"
proof -
  have r: "\<forall>b \<in> set (tool_uses read_request). list_ex (has_id (''tool-'' @ tu_id b))
       (messages (getOrCreate ''s''
          (ingest_all [ProtocolA (fixed_clock 0) (topEv ''s'' (AssistantEvt read_request))] empty_store)))"
    by (simp add: stream_eval read_request_def push_tool_use_def tool_msg_def)
  have l: "length (tool_calls (messages (getOrCreate ''s''
        (ingest_all [ProtocolA (fixed_clock 0) (topEv ''s'' (AssistantEvt read_request))] empty_store)))) = 1"
    by (simp add: stream_eval read_request_def push_tool_use_def tool_msg_def tool_calls_def
        is_tool_call_def)
  show ?thesis
    using repeated_tool_use_no_duplicate [of "''s''" read_request
        "[ProtocolA (fixed_clock 0) (topEv ''s'' (AssistantEvt read_request))]" "fixed_clock 1" "fixed_clock 1"]
      r l
    by (simp add: read_request_def)
qed

subsection \<open>At most one streaming message\<close>

lemma has_id_eq: "has_id c = (\<lambda>m. id_msg m = c)"
  by (simp add: fun_eq_iff has_id_def)

lemma stream_ok_as_keys:
  "stream_ok ms cur =
     ((\<forall>k \<in> set (map skey ms). snd k \<longrightarrow> cur = Some (fst k))
      \<and> (\<forall>c. cur = Some c \<longrightarrow> length (filter (\<lambda>k. fst k = c) (map skey ms)) \<le> 1))"
  by (simp add: stream_ok_def filter_map comp_def skey_def has_id_eq)

lemma stream_ok_cong: "map skey ms' = map skey ms \<Longrightarrow> stream_ok ms' cur = stream_ok ms cur"
  by (simp only: stream_ok_as_keys)

lemma skey_list_update: "skey m' = skey (ms ! i) \<Longrightarrow> map skey (ms[i := m']) = map skey ms"
  by (cases "i < length ms") (simp_all add: list_eq_iff_nth_eq nth_list_update list_update_beyond not_less)

lemma stream_ok_update:
  "stream_ok ms cur \<Longrightarrow> skey m' = skey (ms ! i) \<Longrightarrow> stream_ok (ms[i := m']) cur"
  using stream_ok_cong [OF skey_list_update] by blast

lemma stream_ok_map:
  "stream_ok ms cur \<Longrightarrow> (\<And>m. skey (f m) = skey m) \<Longrightarrow> stream_ok (map f ms) cur"
  using stream_ok_cong [of "map f ms" ms] by simp

lemma stream_ok_filter:
  assumes "stream_ok ms cur"
  shows "stream_ok (filter Q ms) cur"
proof -
  have le: "length (filter P (filter Q ms)) \<le> length (filter P ms)" for P
  proof -
    have "filter P (filter Q ms) = filter Q (filter P ms)" by (auto simp: conj_commute)
    then show ?thesis by (simp only: length_filter_le)
  qed
  have "length (filter (has_id c) (filter Q ms)) \<le> 1" if "cur = Some c" for c
  proof -
    have "length (filter (has_id c) ms) \<le> 1" using assms that by (simp add: stream_ok_def)
    then show ?thesis using le [of "has_id c"] by (rule order_trans [rotated])
  qed
  moreover have "\<forall>m \<in> set (filter Q ms). streaming m \<longrightarrow> cur = Some (id_msg m)"
    using assms by (simp add: stream_ok_def)
  ultimately show ?thesis unfolding stream_ok_def by blast
qed

lemma skey_simps [simp]:
  "skey (m\<lparr>content := c\<rparr>) = skey m"
  "skey (m\<lparr>thinking := th\<rparr>) = skey m"
  "skey (m\<lparr>thinkingComplete := tc\<rparr>) = skey m"
  "skey (m\<lparr>toolResult := tr\<rparr>) = skey m"
  "skey (m\<lparr>toolError := te\<rparr>) = skey m"
  "skey (m\<lparr>subagentSteps := sp\<rparr>) = skey m"
  "skey (m\<lparr>subagentStatus := ss\<rparr>) = skey m"
  "skey (m\<lparr>subagentId := si\<rparr>) = skey m"
  "skey (m\<lparr>subagentDurationMs := sd\<rparr>) = skey m"
  "skey (m\<lparr>subagentTokens := sk\<rparr>) = skey m"
  "skey (finish_thinking m) = skey m"
  by (simp_all add: skey_def finish_thinking_def streaming_def)

lemma at_most_one_index:
  "length (filter P xs) \<le> 1 \<Longrightarrow> i < length xs \<Longrightarrow> j < length xs \<Longrightarrow> P (xs ! i) \<Longrightarrow> P (xs ! j)
   \<Longrightarrow> i = j"
proof (induction xs arbitrary: i j)
  case Nil
  then show ?case by simp
next
  case (Cons x xs)
  show ?case
  proof (cases "P x")
    case True
    with Cons.prems(1) have "filter P xs = []" by simp
    then have n: "\<And>k. k < length xs \<Longrightarrow> \<not> P (xs ! k)" by (simp add: filter_empty_conv)
    show ?thesis using Cons.prems(2-5) n by (cases i; cases j) auto
  next
    case False
    with Cons.prems obtain i' j' where "i = Suc i'" "j = Suc j'"
      by (cases i; cases j) auto
    then show ?thesis using Cons.IH [of i' j'] Cons.prems False by simp
  qed
qed

lemma stream_ok_unstream:
  assumes "stream_ok ms (Some c)" "find_index (has_id c) ms = Some i"
    and "\<not> streaming m'"
  shows "stream_ok (ms[i := m']) None"
proof -
  have i: "i < length ms" "has_id c (ms ! i)" using find_index_Some [OF assms(2)] by auto
  have one: "length (filter (has_id c) ms) \<le> 1" using assms(1) by (simp add: stream_ok_def)
  have "\<not> streaming m" if "m \<in> set (ms[i := m'])" for m
  proof
    assume s: "streaming m"
    from that obtain j where j: "j < length ms" "m = ms[i := m'] ! j"
      by (auto simp: in_set_conv_nth)
    show False
    proof (cases "j = i")
      case True
      then show False using j i s assms(3) by simp
    next
      case False
      then have m: "m = ms ! j" using j by simp
      then have "has_id c (ms ! j)" using assms(1) s j by (auto simp: stream_ok_def has_id_def)
      then show False using at_most_one_index [OF one i(1) j(1) i(2)] False by simp
    qed
  qed
  then show ?thesis by (simp add: stream_ok_def)
qed

lemma stream_ok_drop_current:
  assumes "stream_ok ms (Some c)"
  shows "stream_ok (filter (\<lambda>x. id_msg x \<noteq> c) ms) None"
  using assms by (auto simp: stream_ok_def)

lemma stream_ok_no_target:
  assumes "stream_ok ms (Some c)" "find_index (has_id c) ms = None"
  shows "stream_ok ms None"
  using assms by (auto simp: stream_ok_def find_index_None has_id_def)

lemma stream_ok_push:
  assumes "stream_ok ms cur" "\<not> streaming m" "\<And>c. cur = Some c \<Longrightarrow> id_msg m \<noteq> c"
  shows "stream_ok (ms @ [m]) cur"
  using assms by (auto simp: stream_ok_def has_id_def)

lemma stream_ok_start:
  assumes "\<forall>m \<in> set ms. \<not> streaming m" "\<forall>m \<in> set ms. id_msg m \<noteq> i"
  shows "stream_ok (ms @ [streaming_msg i t]) (Some i)"
proof -
  have "filter (has_id i) ms = []" using assms(2) by (simp add: filter_empty_conv has_id_def)
  then show ?thesis using assms(1)
    by (simp add: stream_ok_def streaming_msg_def base_msg_def has_id_def)
qed

lemma stream_ok_none: "\<forall>m \<in> set ms. \<not> streaming m \<Longrightarrow> stream_ok ms None"
  by (simp add: stream_ok_def)

lemma ids_inv_current:
  "ids_inv n s \<Longrightarrow> currentStreamingMsgId s = Some c \<Longrightarrow> \<exists>a k. c = nextId ''stream-bg'' a k \<and> k < n"
  by (simp add: ids_inv_def ids_ok_def)

lemma ids_inv_fresh:
  "ids_inv n s \<Longrightarrow> m \<in> set (messages s) \<Longrightarrow> id_msg m \<noteq> nextId ''stream-bg'' a n"
  unfolding ids_inv_def ids_ok_def by (meson less_irrefl)

lemma ids_inv_truthy:
  "ids_inv n s \<Longrightarrow> truthy_str (currentStreamingMsgId s) \<longleftrightarrow> currentStreamingMsgId s \<noteq> None"
  by (auto simp: truthy_str_def nextId_def split: option.splits dest!: ids_inv_current)

lemma stream_inv_no_pointer:
  "stream_inv s \<Longrightarrow> currentStreamingMsgId s = None \<Longrightarrow> m \<in> set (messages s) \<Longrightarrow> \<not> streaming m"
  by (auto simp: stream_inv_def stream_ok_def)

lemma stream_inv_start:
  assumes "ids_inv n s" "\<forall>m \<in> set (messages s). \<not> streaming m"
  shows "stream_ok (messages s @ [streaming_msg (nextId ''stream-bg'' a n) t])
           (Some (nextId ''stream-bg'' a n))"
  using assms ids_inv_fresh [OF assms(1)] by (intro stream_ok_start) auto

lemma current_target_find:
  "currentStreamingMsgId s = Some c \<Longrightarrow> current_target s = find_index (has_id c) (messages s)"
  by (simp add: current_target_def)

lemma stream_inv_unstream:
  assumes "stream_inv s" "current_target s = Some i" "\<not> streaming m'"
  shows "stream_ok ((messages s)[i := m']) None"
proof -
  obtain c where c: "currentStreamingMsgId s = Some c"
    using assms(2) by (auto simp: current_target_def split: option.splits)
  then show ?thesis
    using assms stream_ok_unstream [of "messages s" c i m']
    by (simp add: stream_inv_def current_target_find)
qed

lemma stream_inv_drop:
  assumes "stream_inv s" "current_target s = Some i"
  shows "stream_ok (filter (\<lambda>x. id_msg x \<noteq> id_msg (messages s ! i)) (messages s)) None"
proof -
  have "currentStreamingMsgId s = Some (id_msg (messages s ! i))"
    using current_target_id [OF assms(2)] by simp
  then show ?thesis using assms(1) stream_ok_drop_current by (simp add: stream_inv_def)
qed

lemma stream_inv_no_target:
  assumes "stream_inv s" "current_target s = None"
  shows "stream_ok (messages s) None"
proof (cases "currentStreamingMsgId s")
  case None
  then show ?thesis using assms(1) by (simp add: stream_inv_def)
next
  case (Some c)
  then show ?thesis using assms stream_ok_no_target [of "messages s" c]
    by (simp add: stream_inv_def current_target_find)
qed

lemma not_streaming_simps [simp]:
  "\<not> streaming (m\<lparr>isStreaming := Some False\<rparr>)"
  "\<not> streaming (base_msg i r c t)"
  by (simp_all add: streaming_def truthy_flag_def base_msg_def)

lemma handleStreamEvent_stream_inv:
  assumes "ids_inv cnt s" "stream_inv s"
    and "ev = MessageStart \<or> ev = MessageStop \<Longrightarrow> \<forall>m \<in> set (messages s). \<not> streaming m"
  shows "stream_inv (fst (handleStreamEvent now cnt ev s))"
proof (cases ev)
  case MessageStart
  then show ?thesis using stream_inv_start [OF assms(1)] assms(3)
    by (simp add: handleStreamEvent_def stream_inv_def Let_def)
next
  case (ContentBlockDelta d)
  show ?thesis
  proof (cases "current_target s")
    case None
    then show ?thesis using assms ContentBlockDelta by (simp add: handleStreamEvent_def)
  next
    case (Some i)
    then show ?thesis using assms ContentBlockDelta
      by (cases d) (simp_all add: handleStreamEvent_def stream_inv_def Let_def stream_ok_update)
  qed
next
  case MessageDelta
  show ?thesis
  proof (cases "current_target s")
    case None
    then show ?thesis using assms MessageDelta stream_inv_no_target
      by (simp add: handleStreamEvent_def stream_inv_def)
  next
    case (Some i)
    then show ?thesis using assms MessageDelta stream_inv_drop stream_inv_unstream
      by (simp add: handleStreamEvent_def stream_inv_def Let_def)
  qed
next
  case MessageStop
  then show ?thesis using assms(3)
    by (simp add: handleStreamEvent_def stream_inv_def stream_ok_none)
next
  case OtherStream
  then show ?thesis using assms by (simp add: handleStreamEvent_def)
qed

lemma stream_inv_push:
  assumes "ids_inv n s" "stream_inv s" "\<not> streaming m"
    and "\<And>a k. k < n \<Longrightarrow> id_msg m \<noteq> nextId ''stream-bg'' a k"
  shows "stream_ok (messages s @ [m]) (currentStreamingMsgId s)"
proof -
  have "id_msg m \<noteq> c" if "currentStreamingMsgId s = Some c" for c
    using ids_inv_current [OF assms(1) that] assms(4) by auto
  then show ?thesis using assms(2,3) by (intro stream_ok_push) (simp_all add: stream_inv_def)
qed

lemma reconcile_assistant_stream_inv:
  assumes "ids_inv n s" "stream_inv s"
  shows "stream_inv (reconcile_assistant t e s)"
proof (cases "reconcile_target s")
  case None
  have "stream_ok (messages s @ [m]) (currentStreamingMsgId s)"
    if "\<not> streaming m" "id_msg m = ''assistant-'' @ uuid e" for m
    using assms that by (intro stream_inv_push) (auto simp: nextId_def)
  then show ?thesis using None assms
    by (simp add: reconcile_assistant_def stream_inv_def base_msg_def streaming_def truthy_flag_def)
next
  case (Some i)
  then show ?thesis using assms
    by (auto simp: reconcile_assistant_def stream_inv_def Let_def
        intro!: stream_ok_filter stream_ok_update)
qed

lemma push_tool_use_stream_inv:
  assumes "ids_inv n s" "stream_inv s"
  shows "stream_inv (push_tool_use t b s)"
proof -
  have "stream_ok (messages s @ [tool_msg t b]) (currentStreamingMsgId s)"
    using assms
    by (intro stream_inv_push)
       (auto simp: tool_msg_def base_msg_def Let_def nextId_def streaming_def truthy_flag_def)
  then show ?thesis using assms(2)
    by (simp add: push_tool_use_def stream_inv_def Let_def)
qed

lemma push_tool_uses_stream_inv:
  "ids_inv n s \<Longrightarrow> stream_inv s \<Longrightarrow> stream_inv (push_tool_uses now k bs s)"
  by (induction bs arbitrary: k s) (simp_all add: push_tool_use_stream_inv push_tool_use_ids_inv)

lemma attach_tool_result_skey [simp]: "skey (attach_tool_result tr m) = skey m"
  by (simp add: attach_tool_result_def split: option.splits)

lemma append_step_skey [simp]: "skey (append_step t b m) = skey m"
  by (simp add: append_step_def)

lemma attach_step_result_skey [simp]: "skey (attach_step_result t u r m) = skey m"
  by (simp add: attach_step_result_def)

lemma handleTopLevel_stream_inv:
  assumes "ids_inv cnt s" "stream_inv s"
    and "b = StreamEvt MessageStart \<or> b = StreamEvt MessageStop
           \<Longrightarrow> \<forall>m \<in> set (messages s). \<not> streaming m"
  shows "stream_inv (fst (handleTopLevel now sid cnt b s))"
proof (cases b)
  case (SystemEvt e)
  then show ?thesis using assms by (simp add: handleTopLevel_def stream_inv_def)
next
  case (StreamEvt e)
  then show ?thesis using handleStreamEvent_stream_inv [OF assms(1,2), of e now] assms(3)
    by (simp add: handleTopLevel_def split_beta)
next
  case (AssistantEvt e)
  then show ?thesis
    using push_tool_uses_stream_inv [OF reconcile_assistant_ids_inv [OF assms(1)]
        reconcile_assistant_stream_inv [OF assms(1,2)]]
    by (simp add: handleTopLevel_def)
next
  case (UserEvt tr)
  then show ?thesis using assms
    by (cases tr) (simp_all add: handleTopLevel_def stream_inv_def stream_ok_map)
next
  case (ResultEvt r)
  have "stream_ok (messages s @ [m]) (currentStreamingMsgId s)"
    if "\<not> streaming m" "id_msg m = nextId ''sys-err'' (now 0) cnt" for m
    using assms(1,2) that by (intro stream_inv_push) (auto dest: nextId_counter_inj)
  then show ?thesis using ResultEvt assms
    by (simp add: handleTopLevel_def stream_inv_def Let_def base_msg_def streaming_def truthy_flag_def)
next
  case OtherEvt
  then show ?thesis using assms by (simp add: handleTopLevel_def)
qed

lemma fold_append_step_stream:
  "map skey (messages (fold (\<lambda>blk s'. s'\<lparr>messages := map (append_step t blk) (messages s')\<rparr>) bs s))
     = map skey (messages s)
   \<and> currentStreamingMsgId (fold (\<lambda>blk s'. s'\<lparr>messages := map (append_step t blk) (messages s')\<rparr>) bs s)
     = currentStreamingMsgId s"
  by (induction bs arbitrary: s) simp_all

lemma handleSubagentEvent_stream_inv:
  assumes "stream_inv s"
  shows "stream_inv (handleSubagentEvent s b p)"
proof (cases "parentToolMap s p")
  case None
  then show ?thesis using assms by (simp add: handleSubagentEvent_def)
next
  case (Some t)
  show ?thesis
  proof (cases b)
    case (AssistantEvt e)
    then show ?thesis using assms Some fold_append_step_stream [of t "tool_uses e" s]
      by (auto simp: handleSubagentEvent_def stream_inv_def dest: stream_ok_cong)
  next
    case (UserEvt tr)
    then show ?thesis using assms Some
      by (cases tr) (simp_all add: handleSubagentEvent_def stream_inv_def stream_ok_map)
  qed (use assms Some in \<open>simp_all add: handleSubagentEvent_def\<close>)
qed

lemma closePending_stream_inv: "stream_inv s \<Longrightarrow> stream_inv (closePendingACPTools s)"
  by (simp add: closePendingACPTools_def stream_inv_def stream_ok_map)

lemma ensure_stream_inv:
  assumes "ids_inv cnt s" "stream_inv s"
  shows "stream_inv (fst (ensureACPStreamingMsg now cnt s))"
proof (cases "currentStreamingMsgId s")
  case None
  then have "\<forall>m \<in> set (messages s). \<not> streaming m"
    using stream_inv_no_pointer [OF assms(2)] by blast
  then show ?thesis using None stream_inv_start [OF assms(1)]
    by (simp add: ensureACPStreamingMsg_def stream_inv_def Let_def truthy_str_def)
next
  case (Some c)
  then have "truthy_str (currentStreamingMsgId s)" using ids_inv_truthy [OF assms(1)] by simp
  then show ?thesis using assms(2) by (simp add: ensureACPStreamingMsg_def)
qed

lemma finalize_stream_inv:
  assumes "stream_inv s"
  shows "stream_inv (finalizeACPStreamingMsg s)"
proof (cases "current_target s")
  case None
  then show ?thesis using assms stream_inv_no_target
    by (simp add: finalizeACPStreamingMsg_def stream_inv_def)
next
  case (Some i)
  then show ?thesis using assms stream_inv_unstream
    by (simp add: finalizeACPStreamingMsg_def stream_inv_def)
qed

lemma update_target_stream_inv:
  "stream_inv s \<Longrightarrow> skey m' = skey (messages s ! i) \<Longrightarrow> stream_inv (s\<lparr>messages := (messages s)[i := m']\<rparr>)"
  by (simp add: stream_inv_def stream_ok_update)

lemma handleACPUpdate_stream_inv:
  assumes "ids_inv cnt s" "stream_inv s"
  shows "stream_inv (fst (handleACPUpdate now cnt u s))"
proof -
  let ?c = "closePendingACPTools s"
  note c = closePending_stream_inv [OF assms(2)]
  note ci = closePending_ids_inv [OF assms(1)]
  note e = ensure_stream_inv [OF ci c, of now]
  show ?thesis
  proof (cases u)
    case (AgentMessageChunk x)
    then show ?thesis using c e
      by (auto simp: handleACPUpdate_def Let_def split_beta split: option.splits
          intro!: update_target_stream_inv)
  next
    case (AgentThoughtChunk x)
    then show ?thesis using c e
      by (auto simp: handleACPUpdate_def Let_def split_beta split: option.splits
          intro!: update_target_stream_inv)
  next
    case (ToolCallOpen tc)
    let ?f = "finalizeACPStreamingMsg ?c"
    note f = finalize_stream_inv [OF c]
    note fi = finalize_ids_inv [OF ci]
    have "stream_ok (messages ?f @ [acp_tool_msg (now 0) tc]) (currentStreamingMsgId ?f)"
      using fi f
      by (intro stream_inv_push)
         (auto simp: acp_tool_msg_def base_msg_def Let_def nextId_def streaming_def truthy_flag_def)
    then show ?thesis using ToolCallOpen f
      by (simp add: handleACPUpdate_def stream_inv_def Let_def)
  next
    case (ToolCallUpdate tc)
    then show ?thesis using assms
      by (auto simp: handleACPUpdate_def Let_def split: option.splits
          intro!: update_target_stream_inv)
  next
    case (UsageUpdate x)
    then show ?thesis using assms
      by (cases x) (simp_all add: handleACPUpdate_def stream_inv_def)
  next
    case OtherUpdate
    then show ?thesis using assms by (simp add: handleACPUpdate_def)
  qed
qed

lemma stream_inv_empty: "stream_inv empty_state"
  by (simp add: stream_inv_def stream_ok_def empty_state_def)

lemma getOrCreate_stream_inv: "streams_inv st \<Longrightarrow> stream_inv (getOrCreate sid st)"
  by (auto simp: streams_inv_def getOrCreate_def stream_inv_empty split: option.splits)

lemma streams_inv_update:
  "streams_inv st \<Longrightarrow> stream_inv s' \<Longrightarrow> sessions st' = (sessions st)(sid \<mapsto> s') \<Longrightarrow> streams_inv st'"
  by (auto simp: streams_inv_def)

lemma handleEvent_streams_inv:
  assumes "store_inv st" "streams_inv st" "well_timed (ProtocolA now ev) st"
  shows "streams_inv (handleEvent now ev st)"
proof (cases "ev_sessionId ev")
  case None
  then show ?thesis using assms by (simp add: handleEvent_def)
next
  case (Some sid)
  note g = getOrCreate_ids_inv [OF assms(1), of sid]
  note gs = getOrCreate_stream_inv [OF assms(2), of sid]
  show ?thesis
  proof (cases "sid = []")
    case True
    then show ?thesis using Some assms by (simp add: handleEvent_def)
  next
    case False
    note sid = this
    show ?thesis
    proof (cases "truthy_str (ev_parentId ev)")
      case True
      then show ?thesis
        using Some sid streams_inv_update [OF assms(2) handleSubagentEvent_stream_inv [OF gs]]
        by (simp add: handleEvent_def)
    next
      case False
      have "body ev = StreamEvt MessageStart \<or> body ev = StreamEvt MessageStop \<Longrightarrow>
          \<forall>m \<in> set (messages (getOrCreate sid st)). \<not> streaming m"
        using assms(3) Some sid False by (auto simp: list_ex_iff)
      then have "stream_inv (fst (handleTopLevel now sid (idCounter st) (body ev) (getOrCreate sid st)))"
        by (rule handleTopLevel_stream_inv [OF g gs])
      then show ?thesis using Some sid False streams_inv_update [OF assms(2)]
        by (simp add: handleEvent_def Let_def split_beta)
    qed
  qed
qed

lemma handleACPEvent_streams_inv:
  assumes "store_inv st" "streams_inv st"
  shows "streams_inv (handleACPEvent now ev st)"
proof (cases "acp_sessionId ev")
  case None
  then show ?thesis using assms by (simp add: handleACPEvent_def)
next
  case (Some sid)
  have g: "ids_inv (idCounter st) ((getOrCreate sid st)\<lparr>isConnected := True\<rparr>)"
    using getOrCreate_ids_inv [OF assms(1), of sid] by (simp add: ids_inv_def)
  have gs: "stream_inv ((getOrCreate sid st)\<lparr>isConnected := True\<rparr>)"
    using getOrCreate_stream_inv [OF assms(2), of sid] by (simp add: stream_inv_def)
  note t = handleACPUpdate_stream_inv [OF g gs, of now "update ev"]
  show ?thesis using Some assms(2) streams_inv_update [OF assms(2) t]
    by (simp add: handleACPEvent_def Let_def split_beta)
qed

lemma handleACPTurnComplete_streams_inv:
  assumes "streams_inv st"
  shows "streams_inv (handleACPTurnComplete sid st)"
proof (cases "sessions st sid")
  case None
  then show ?thesis using assms by (simp add: handleACPTurnComplete_def)
next
  case (Some s)
  then have "stream_inv s" using assms by (simp add: streams_inv_def)
  then have "stream_inv ((closePendingACPTools (finalizeACPStreamingMsg s))\<lparr>isProcessing := False\<rparr>)"
    using closePending_stream_inv [OF finalize_stream_inv] by (simp add: stream_inv_def)
  then show ?thesis using Some streams_inv_update [OF assms]
    by (simp add: handleACPTurnComplete_def)
qed

lemma ingest_streams_inv:
  "store_inv st \<Longrightarrow> streams_inv st \<Longrightarrow> well_timed i st \<Longrightarrow> streams_inv (ingest i st)"
  by (cases i)
     (simp_all add: handleEvent_streams_inv handleACPEvent_streams_inv
        handleACPTurnComplete_streams_inv del: well_timed.simps)

lemma ingest_all_streams_inv:
  "store_inv st \<Longrightarrow> streams_inv st \<Longrightarrow> well_timed_run evs st \<Longrightarrow>
   streams_inv (ingest_all evs st)"
  unfolding ingest_all_def
proof (induction evs arbitrary: st)
  case Nil
  then show ?case by simp
next
  case (Cons i evs)
  then show ?case using ingest_store_inv [of st i] ingest_streams_inv [of st i]
    by (simp del: well_timed.simps ingest.simps)
qed

lemma well_timed_run_take: "well_timed_run evs st \<Longrightarrow> well_timed_run (take n evs) st"
proof (induction evs arbitrary: st n)
  case Nil
  then show ?case by simp
next
  case (Cons i evs)
  then show ?case by (cases n) (simp_all del: well_timed.simps ingest.simps)
qed

lemma stream_inv_at_most_one:
  assumes "stream_inv s"
  shows "length (filter streaming (messages s)) \<le> 1"
proof (cases "currentStreamingMsgId s")
  case None
  then have "filter streaming (messages s) = []"
    using stream_inv_no_pointer [OF assms] by (simp add: filter_empty_conv)
  then show ?thesis by simp
next
  case (Some c)
  then have s: "\<forall>m \<in> set (messages s). streaming m \<longrightarrow> has_id c m"
    and one: "length (filter (has_id c) (messages s)) \<le> 1"
    using assms by (auto simp: stream_inv_def stream_ok_def has_id_def)
  have "filter streaming (messages s) = filter streaming (filter (has_id c) (messages s))"
    using s by (auto intro: filter_cong)
  then have "length (filter streaming (messages s)) \<le> length (filter (has_id c) (messages s))"
    by (simp only: length_filter_le)
  then show ?thesis using one by simp
qed

lemma streams_inv_empty: "streams_inv empty_store"
  by (simp add: streams_inv_def empty_store_def)

text \<open>
  C2 (amended). At every point of every ingestion sequence from the empty store (any
  interleaving of Protocol A and Protocol B events) in which each Protocol A
  message-start and message-stop arrives when no message of its session has the
  streaming flag set, at most one message of a session's transcript has its streaming
  flag set.
\<close>

theorem at_most_one_streaming:
  assumes "well_timed_run evs empty_store"
    and "sessions (ingest_all (take n evs) empty_store) sid = Some s"
  shows "length (filter streaming (messages s)) \<le> 1"
proof -
  have "well_timed_run (take n evs) empty_store" using assms(1) by (rule well_timed_run_take)
  then have "streams_inv (ingest_all (take n evs) empty_store)"
    by (rule ingest_all_streams_inv [OF store_inv_empty streams_inv_empty])
  then have "stream_inv s" using assms(2) by (simp add: streams_inv_def)
  then show ?thesis by (rule stream_inv_at_most_one)
qed

lemmas flag_eval = streaming_def finish_thinking_def ensureACPStreamingMsg_def chunk_text_def

theorem at_most_one_streaming_witness:
  "well_timed_run mixed_turns empty_store
   \<and> sessions (ingest_all (take 5 mixed_turns) empty_store) ''s''
       = Some (getOrCreate ''s'' (ingest_all (take 5 mixed_turns) empty_store))
   \<and> length (filter streaming (messages (getOrCreate ''s''
        (ingest_all (take 5 mixed_turns) empty_store)))) = 1"
proof -
  have w: "well_timed_run mixed_turns empty_store"
    by (simp add: mixed_turns_def stream_eval acp_eval flag_eval is_ws_def)
  have h: "sessions (ingest_all (take 5 mixed_turns) empty_store) ''s''
       = Some (getOrCreate ''s'' (ingest_all (take 5 mixed_turns) empty_store))"
    by (simp add: mixed_turns_def stream_eval acp_eval flag_eval is_ws_def)
  have l: "1 \<le> length (filter streaming (messages (getOrCreate ''s''
        (ingest_all (take 5 mixed_turns) empty_store))))"
    by (simp add: mixed_turns_def stream_eval acp_eval flag_eval is_ws_def)
  show ?thesis using at_most_one_streaming [OF w h] w h l by simp
qed

text \<open>Two message-starts in a row leave two messages with the streaming flag set.\<close>

theorem double_start_counterexample:
  "length (filter streaming (messages (getOrCreate ''s'' (ingest_all double_start empty_store)))) = 2"
  by (simp add: double_start_def stream_eval flag_eval)

subsection \<open>Allocation\<close>

lemma grows_refl: "grows hn hn"
  by (simp add: grows_def)

lemma grows_trans: "grows hn hn1 \<Longrightarrow> grows hn1 hn2 \<Longrightarrow> grows hn hn2"
  by (auto simp: grows_def)

lemma grows_keep: "grows hn hn' \<Longrightarrow> x < snd hn \<Longrightarrow> fst hn' x = fst hn x"
  by (simp add: grows_def)

lemma alloc_spec:
  "alloc ob hn = (a, hn') \<Longrightarrow>
   a = snd hn \<and> snd hn' = Suc (snd hn) \<and> fst hn' a = Some ob \<and> grows hn hn'"
  by (auto simp: alloc_def grows_def)

lemma spread_spec:
  assumes "spread r hn = (a, hn')"
  shows "grows hn hn'"
    and "fst hn r \<noteq> None \<Longrightarrow> snd hn \<le> a \<and> a < snd hn' \<and> fst hn' a = fst hn r"
  using assms by (auto simp: spread_def alloc_def grows_def split: option.splits)

lemma spread_all_spec:
  assumes "spread_all rs hn = (as, hn')" "\<forall>r \<in> set rs. r < snd hn \<and> fst hn r \<noteq> None"
  shows "grows hn hn' \<and> length as = length rs \<and>
         (\<forall>i < length rs. snd hn \<le> as ! i \<and> as ! i < snd hn' \<and> fst hn' (as ! i) = fst hn (rs ! i))"
  using assms
proof (induction rs arbitrary: hn as hn')
  case Nil
  then show ?case by (simp add: grows_refl)
next
  case (Cons r rs)
  obtain a hn1 where s: "spread r hn = (a, hn1)" by (cases "spread r hn")
  obtain as' hn2 where t: "spread_all rs hn1 = (as', hn2)" by (cases "spread_all rs hn1")
  from Cons.prems(1) s t have eq: "as = a # as'" "hn' = hn2" by simp_all
  note g1 = spread_spec(1) [OF s]
  have a: "snd hn \<le> a \<and> a < snd hn1 \<and> fst hn1 a = fst hn r"
    using spread_spec(2) [OF s] Cons.prems(2) by simp
  have pre: "\<forall>x \<in> set rs. x < snd hn1 \<and> fst hn1 x \<noteq> None"
    using Cons.prems(2) g1 by (auto simp: grows_def)
  note ih = Cons.IH [OF t pre]
  have g: "grows hn hn2" using g1 ih by (blast intro: grows_trans)
  have "snd hn \<le> as ! i \<and> as ! i < snd hn' \<and> fst hn' (as ! i) = fst hn ((r # rs) ! i)"
    if "i < length (r # rs)" for i
  proof (cases i)
    case 0
    have "fst hn2 a = fst hn1 a" using ih a by (auto simp: grows_def)
    moreover have "a < snd hn2" using ih a by (auto simp: grows_def)
    ultimately show ?thesis using 0 a eq by simp
  next
    case (Suc j)
    then have j: "j < length rs" using that by simp
    then have "snd hn1 \<le> as' ! j \<and> as' ! j < snd hn2 \<and> fst hn2 (as' ! j) = fst hn1 (rs ! j)"
      using ih by blast
    moreover have "fst hn1 (rs ! j) = fst hn (rs ! j)"
      using Cons.prems(2) g1 j by (auto simp: grows_def)
    moreover have "snd hn \<le> snd hn1" using g1 by (simp add: grows_def)
    ultimately show ?thesis using Suc eq by simp
  qed
  then show ?case using g ih eq by simp
qed

lemma spread_opt_spec:
  assumes "spread_opt r hn = (r', hn')" "\<forall>x \<in> set_opt r. fst hn x \<noteq> None"
  shows "grows hn hn'"
    and "r = None \<Longrightarrow> r' = None"
    and "\<And>x. r = Some x \<Longrightarrow> \<exists>a. r' = Some a \<and> snd hn \<le> a \<and> a < snd hn' \<and> fst hn' a = fst hn x"
  using assms
  by (auto simp: spread_opt_def spread_def alloc_def grows_def set_opt_def split: option.splits)

subsection \<open>Values read through the heap\<close>

lemma view_message_cong:
  "(\<And>x. x \<in> message_refs m \<Longrightarrow> h' x = h x) \<Longrightarrow> view_message h' m = view_message h m"
  by (auto simp: view_message_def message_refs_def set_opt_def split: option.splits)

lemma object_refs_cong: "h' r' = h r \<Longrightarrow> object_refs h' r' = object_refs h r"
  by (simp add: object_refs_def)

lemma view_element_cong:
  "h' r' = h r \<Longrightarrow> (\<And>x. x \<in> object_refs h r \<Longrightarrow> h' x = h x) \<Longrightarrow>
   view_element h' r' = view_element h r"
  by (auto simp: view_element_def object_refs_def split: option.splits obj.splits
      intro!: view_message_cong)

lemma view_info_cong:
  assumes "r = None \<Longrightarrow> r' = None"
    and "\<And>x. r = Some x \<Longrightarrow>
           \<exists>x'. r' = Some x' \<and> h' x' = h x \<and> (\<forall>y \<in> object_refs h x. h' y = h y)"
  shows "view_info h' r' = view_info h r"
proof (cases r)
  case None
  then show ?thesis using assms(1) by (simp add: view_info_def)
next
  case (Some x)
  then obtain x' where "r' = Some x'" "h' x' = h x" "\<forall>y \<in> object_refs h x. h' y = h y"
    using assms(2) by blast
  then show ?thesis using Some
    by (auto simp: view_info_def object_refs_def split: option.splits obj.splits)
qed

lemma view_permission_cong:
  assumes "r = None \<Longrightarrow> r' = None"
    and "\<And>x. r = Some x \<Longrightarrow> \<exists>x'. r' = Some x' \<and> h' x' = h x"
  shows "view_permission h' r' = view_permission h r"
proof (cases r)
  case None
  then show ?thesis using assms(1) by (simp add: view_permission_def)
next
  case (Some x)
  then obtain x' where "r' = Some x'" "h' x' = h x" using assms(2) by blast
  then show ?thesis using Some by (simp add: view_permission_def)
qed

lemma view_raw_cong: "(\<And>x. x \<in> set_opt r \<Longrightarrow> h' x = h x) \<Longrightarrow> view_raw h' r = view_raw h r"
  by (cases r) (simp_all add: view_raw_def set_opt_def)

lemma view_messages_copy:
  assumes "length ms = length rs"
    and "\<And>i. i < length rs \<Longrightarrow> h' (ms ! i) = h (rs ! i)"
    and "\<And>r x. r \<in> set rs \<Longrightarrow> x \<in> object_refs h r \<Longrightarrow> h' x = h x"
  shows "map (view_element h') ms = map (view_element h) rs"
proof (rule nth_equalityI)
  show "length (map (view_element h') ms) = length (map (view_element h) rs)"
    using assms(1) by simp
next
  fix i assume "i < length (map (view_element h') ms)"
  then have i: "i < length rs" using assms(1) by simp
  then have "view_element h' (ms ! i) = view_element h (rs ! i)"
    using assms(2) assms(3) [of "rs ! i"] by (intro view_element_cong) auto
  then show "map (view_element h') ms ! i = map (view_element h) rs ! i"
    using i assms(1) by simp
qed

lemma fields_of_state: "h a = Some (StateObj st) \<Longrightarrow> fields_of h a = Some (snapshot_obj.truncate st)"
  by (simp add: fields_of_def)

lemma truncate_simps [simp]:
  "o_messages (snapshot_obj.truncate st) = o_messages st"
  "o_sessionInfo (snapshot_obj.truncate st) = o_sessionInfo st"
  "o_pendingPermission (snapshot_obj.truncate st) = o_pendingPermission st"
  "o_rawAcpPermission (snapshot_obj.truncate st) = o_rawAcpPermission st"
  by (simp_all add: snapshot_obj.truncate_def)

lemma view_fields_cong:
  fixes st :: "'a snapshot_obj_scheme"
  assumes "\<And>x. x \<in> {o_messages st} \<union> set (array_of h (o_messages st))
          \<union> set_opt (o_sessionInfo st) \<union> set_opt (o_pendingPermission st)
          \<union> (\<Union>r \<in> set (array_of h (o_messages st)). object_refs h r)
          \<union> (\<Union>r \<in> set_opt (o_sessionInfo st). object_refs h r)
          \<union> set_opt (o_rawAcpPermission st) \<Longrightarrow> h' x = h x"
  shows "view_fields h' st = view_fields h st"
proof -
  have arr: "array_of h' (o_messages st) = array_of h (o_messages st)"
    using assms by (simp add: array_of_def)
  have "map (view_element h') (array_of h (o_messages st))
      = map (view_element h) (array_of h (o_messages st))"
    using assms by (intro view_messages_copy) auto
  then have m: "view_messages h' (o_messages st) = view_messages h (o_messages st)"
    unfolding view_messages_def arr by (rule arg_cong)
  have i: "view_info h' (o_sessionInfo st) = view_info h (o_sessionInfo st)"
    using assms by (intro view_info_cong) (auto simp: set_opt_def)
  have p: "view_permission h' (o_pendingPermission st) = view_permission h (o_pendingPermission st)"
    using assms by (intro view_permission_cong) (auto simp: set_opt_def)
  have r: "view_raw h' (o_rawAcpPermission st) = view_raw h (o_rawAcpPermission st)"
    using assms by (intro view_raw_cong) auto
  show ?thesis using m i p r by (simp add: view_fields_def)
qed

lemma view_state_cong:
  assumes "\<And>x. x \<in> own h a \<union> nested h a \<Longrightarrow> h' x = h x"
  shows "view_state h' a = view_state h a"
proof -
  have a: "h' a = h a" using assms by (auto simp: own_def split: option.splits)
  show ?thesis
  proof (cases "h a")
    case None
    then show ?thesis using a by (simp add: view_state_def)
  next
    case (Some ob)
    show ?thesis
    proof (cases ob)
      case (StateObj st)
      have "view_fields h' st = view_fields h st"
        using assms Some StateObj
        by (intro view_fields_cong) (auto simp: own_def nested_def fields_of_def)
      then show ?thesis using a Some StateObj by (simp add: view_state_def)
    next
      case (SnapshotObj sn)
      have "view_fields h' sn = view_fields h sn"
        using assms Some SnapshotObj
        by (intro view_fields_cong) (auto simp: own_def nested_def fields_of_def)
      then show ?thesis using a Some SnapshotObj by (simp add: view_state_def)
    qed (use a Some in \<open>simp_all add: view_state_def\<close>)
  qed
qed

subsection \<open>The snapshot\<close>

lemma get_absent: "session_addr hs sid = None \<Longrightarrow> get sid hs = (None, hs)"
  by (simp add: get_def)

lemma UN_set_nth: "(\<Union>x \<in> set xs. f x) = (\<Union>i \<in> {..<length xs}. f (xs ! i))"
  by (force simp: in_set_conv_nth)

lemma UN_nth_cong:
  assumes "length xs = length ys" "\<And>i. i < length ys \<Longrightarrow> f (xs ! i) = g (ys ! i)"
  shows "(\<Union>x \<in> set xs. f x) = (\<Union>y \<in> set ys. g y)"
  unfolding UN_set_nth using assms by simp

lemma well_formedD:
  assumes "well_formed hs" "session_addr hs sid = Some a"
  shows "\<exists>st. heap hs a = Some (StateObj st)"
    and "\<And>x. x \<in> own (heap hs) a \<Longrightarrow> x < next_addr hs \<and> heap hs x \<noteq> None"
    and "\<And>x. x \<in> nested (heap hs) a \<Longrightarrow> x < next_addr hs"
  using assms unfolding well_formed_def by blast+

lemma get_present:
  assumes wf: "well_formed hs" and sa: "session_addr hs sid = Some a"
  shows "\<exists>p. fst (get sid hs) = Some p
     \<and> session_addr (snd (get sid hs)) = session_addr hs
     \<and> (\<forall>x < next_addr hs. heap (snd (get sid hs)) x = heap hs x)
     \<and> view_state (heap (snd (get sid hs))) p = view_state (heap hs) a
     \<and> (\<forall>x \<in> own (heap (snd (get sid hs))) p. next_addr hs \<le> x)
     \<and> nested (heap (snd (get sid hs))) p = nested (heap hs) a"
proof -
  let ?h = "heap hs" and ?n = "next_addr hs"
  obtain st where st: "?h a = Some (StateObj st)" using well_formedD(1) [OF wf sa] by blast
  let ?rs = "array_of ?h (o_messages st)"
  have own: "own ?h a = {a} \<union> {o_messages st} \<union> set ?rs
      \<union> set_opt (o_sessionInfo st) \<union> set_opt (o_pendingPermission st)"
    and nested: "nested ?h a = (\<Union>r \<in> set ?rs. object_refs ?h r)
      \<union> (\<Union>r \<in> set_opt (o_sessionInfo st). object_refs ?h r)
      \<union> set_opt (o_rawAcpPermission st)"
    using st by (simp_all add: own_def nested_def fields_of_def)
  have own_ok: "\<And>x. x \<in> own ?h a \<Longrightarrow> x < ?n \<and> ?h x \<noteq> None"
    and nested_ok: "\<And>x. x \<in> nested ?h a \<Longrightarrow> x < ?n"
    using well_formedD(2,3) [OF wf sa] by blast+
  let ?hn0 = "(?h, ?n)"
  obtain ms hn1 where s1: "spread_all ?rs ?hn0 = (ms, hn1)" by (cases "spread_all ?rs ?hn0")
  obtain arr hn2 where s2: "alloc (ArrayObj ms) hn1 = (arr, hn2)" by (cases "alloc (ArrayObj ms) hn1")
  obtain info hn3 where s3: "spread_opt (o_sessionInfo st) hn2 = (info, hn3)"
    by (cases "spread_opt (o_sessionInfo st) hn2")
  obtain perm hn4 where s4: "spread_opt (o_pendingPermission st) hn3 = (perm, hn4)"
    by (cases "spread_opt (o_pendingPermission st) hn3")
  let ?sn = "\<lparr>o_messages = arr, o_isProcessing = o_isProcessing st,
               o_isConnected = o_isConnected st, o_sessionInfo = info,
               o_totalCost = o_totalCost st, o_pendingPermission = perm,
               o_rawAcpPermission = o_rawAcpPermission st\<rparr>"
  obtain p hn5 where s5: "alloc (SnapshotObj ?sn) hn4 = (p, hn5)"
    by (cases "alloc (SnapshotObj ?sn) hn4")
  have g: "get sid hs = (Some p, hs\<lparr>heap := fst hn5, next_addr := snd hn5\<rparr>)"
    using sa st s1 s2 s3 s4 s5 by (simp add: get_def)
  let ?h' = "fst hn5"
  \<comment> \<open>the chain of allocations\<close>
  have rs_ok: "\<forall>r \<in> set ?rs. r < snd ?hn0 \<and> fst ?hn0 r \<noteq> None"
    using own_ok own by auto
  note a1 = spread_all_spec [OF s1 rs_ok]
  note a2 = alloc_spec [OF s2]
  have g01: "grows ?hn0 hn1" using a1 by simp
  have g12: "grows hn1 hn2" using a2 by simp
  have g02: "grows ?hn0 hn2" using g01 g12 by (rule grows_trans)
  have info_ok: "\<forall>x \<in> set_opt (o_sessionInfo st). fst hn2 x \<noteq> None"
    using own_ok own grows_keep [OF g02] by auto
  note a3 = spread_opt_spec [OF s3 info_ok]
  have g23: "grows hn2 hn3" using a3(1) .
  have g03: "grows ?hn0 hn3" using g02 g23 by (rule grows_trans)
  have perm_ok: "\<forall>x \<in> set_opt (o_pendingPermission st). fst hn3 x \<noteq> None"
    using own_ok own grows_keep [OF g03] by auto
  note a4 = spread_opt_spec [OF s4 perm_ok]
  have g34: "grows hn3 hn4" using a4(1) .
  note a5 = alloc_spec [OF s5]
  have g45: "grows hn4 hn5" using a5 by simp
  have g35: "grows hn3 hn5" using g34 g45 by (rule grows_trans)
  have g25: "grows hn2 hn5" using g23 g35 by (rule grows_trans)
  have g15: "grows hn1 hn5" using g12 g25 by (rule grows_trans)
  have g05: "grows ?hn0 hn5" using g01 g15 by (rule grows_trans)
  have below: "\<And>x. x < ?n \<Longrightarrow> ?h' x = ?h x" using grows_keep [OF g05] by simp
  \<comment> \<open>the new objects\<close>
  have hp: "?h' p = Some (SnapshotObj ?sn)" "?n \<le> p"
    using a5 g03 g34 by (auto simp: grows_def)
  have harr: "?h' arr = Some (ArrayObj ms)" "?n \<le> arr"
    using a2 grows_keep [OF g25, of arr] g01 by (auto simp: grows_def)
  have hms: "length ms = length ?rs"
    "\<And>i. i < length ?rs \<Longrightarrow> ?n \<le> ms ! i \<and> ?h' (ms ! i) = ?h (?rs ! i)"
    using a1 grows_keep [OF g15] by auto
  have hinfo: "o_sessionInfo st = None \<Longrightarrow> info = None"
    "\<And>x. o_sessionInfo st = Some x \<Longrightarrow> \<exists>x'. info = Some x' \<and> ?n \<le> x' \<and> ?h' x' = ?h x"
  proof -
    show "o_sessionInfo st = None \<Longrightarrow> info = None" using a3(2) .
    fix x assume x: "o_sessionInfo st = Some x"
    then obtain x' where x': "info = Some x'" "snd hn2 \<le> x'" "x' < snd hn3" "fst hn3 x' = fst hn2 x"
      using a3(3) by blast
    have "x < ?n" using own_ok own x by (auto simp: set_opt_def)
    then have "fst hn2 x = ?h x" using grows_keep [OF g02] by simp
    moreover have "?h' x' = fst hn3 x'" using grows_keep [OF g35] x'(3) by simp
    moreover have "?n \<le> x'" using x'(2) g02 by (simp add: grows_def)
    ultimately show "\<exists>x'. info = Some x' \<and> ?n \<le> x' \<and> ?h' x' = ?h x" using x' by simp
  qed
  have hperm: "o_pendingPermission st = None \<Longrightarrow> perm = None"
    "\<And>x. o_pendingPermission st = Some x \<Longrightarrow> \<exists>x'. perm = Some x' \<and> ?n \<le> x' \<and> ?h' x' = ?h x"
  proof -
    show "o_pendingPermission st = None \<Longrightarrow> perm = None" using a4(2) .
    fix x assume x: "o_pendingPermission st = Some x"
    then obtain x' where x': "perm = Some x'" "snd hn3 \<le> x'" "x' < snd hn4" "fst hn4 x' = fst hn3 x"
      using a4(3) by blast
    have "x < ?n" using own_ok own x by (auto simp: set_opt_def)
    then have "fst hn3 x = ?h x" using grows_keep [OF g03] by simp
    moreover have "?h' x' = fst hn4 x'" using grows_keep [OF g45] x'(3) by simp
    moreover have "?n \<le> x'" using x'(2) g03 by (simp add: grows_def)
    ultimately show "\<exists>x'. perm = Some x' \<and> ?n \<le> x' \<and> ?h' x' = ?h x" using x' by simp
  qed
  have nested_keep: "\<And>x. x \<in> nested ?h a \<Longrightarrow> ?h' x = ?h x"
    using nested_ok below by blast
  \<comment> \<open>the value of the snapshot\<close>
  have arr': "array_of ?h' arr = ms" using harr by (simp add: array_of_def)
  have "map (view_element ?h') ms = map (view_element ?h) ?rs"
    using hms nested_keep nested by (intro view_messages_copy) auto
  then have vm: "view_messages ?h' arr = view_messages ?h (o_messages st)"
    by (simp add: view_messages_def arr')
  have vi: "view_info ?h' info = view_info ?h (o_sessionInfo st)"
    using hinfo nested_keep nested by (intro view_info_cong) (auto simp: set_opt_def)
  have vp: "view_permission ?h' perm = view_permission ?h (o_pendingPermission st)"
    using hperm by (intro view_permission_cong) auto
  have vr: "view_raw ?h' (o_rawAcpPermission st) = view_raw ?h (o_rawAcpPermission st)"
    using nested_keep nested by (intro view_raw_cong) auto
  have v: "view_state ?h' p = view_state ?h a"
    using hp st vm vi vp vr by (simp add: view_state_def view_fields_def)
  \<comment> \<open>what is new, what is shared\<close>
  have own': "own ?h' p = {p} \<union> {arr} \<union> set ms \<union> set_opt info \<union> set_opt perm"
    using hp arr' by (simp add: own_def fields_of_def)
  have new: "\<forall>x \<in> own ?h' p. ?n \<le> x"
  proof
    fix x assume "x \<in> own ?h' p"
    then consider "x = p" | "x = arr" | "x \<in> set ms" | "x \<in> set_opt info" | "x \<in> set_opt perm"
      using own' by auto
    then show "?n \<le> x"
    proof cases
      case 3
      then obtain i where "i < length ms" "x = ms ! i" by (auto simp: in_set_conv_nth)
      then show ?thesis using hms by simp
    next
      case 4
      then show ?thesis using hinfo by (cases "o_sessionInfo st") (auto simp: set_opt_def)
    next
      case 5
      then show ?thesis using hperm by (cases "o_pendingPermission st") (auto simp: set_opt_def)
    qed (use hp harr in simp_all)
  qed
  have el: "(\<Union>r \<in> set ms. object_refs ?h' r) = (\<Union>r \<in> set ?rs. object_refs ?h r)"
  proof -
    have "object_refs ?h' (ms ! i) = object_refs ?h (?rs ! i)" if "i < length ?rs" for i
      using hms(2) [OF that] by (intro object_refs_cong) simp
    then show ?thesis using hms(1) by (intro UN_nth_cong) simp_all
  qed
  have il: "(\<Union>r \<in> set_opt info. object_refs ?h' r) = (\<Union>r \<in> set_opt (o_sessionInfo st). object_refs ?h r)"
  proof (cases "o_sessionInfo st")
    case None
    then show ?thesis using hinfo(1) by (simp add: set_opt_def)
  next
    case (Some x)
    then obtain x' where "info = Some x'" "?h' x' = ?h x" using hinfo(2) by blast
    then show ?thesis using Some by (simp add: set_opt_def object_refs_def)
  qed
  have shared: "nested ?h' p = nested ?h a"
    using hp arr' el il nested by (simp add: nested_def fields_of_def)
  show ?thesis using g v new shared below by simp
qed

text \<open>
  What \<^verbatim>\<open>get\<close> copies. For an absent session id it returns no state. For a session id
  present in a well-formed store it returns a new record whose value equals the live
  one; the returned record, its message array, its message objects and its copies of the
  session info and of the pending permission are new objects, and no write to them
  changes the value of the live record. Below that nothing is copied: the objects the
  messages reference (tool input, tool result, subagent step list, image array), the
  tools array of the session info and the raw permission event are the very objects of
  the live record.
\<close>

lemma snapshot_is_shallow_copy:
  assumes "well_formed hs"
  shows "(session_addr hs sid = None \<longrightarrow> get sid hs = (None, hs))
    \<and> (\<forall>a. session_addr hs sid = Some a \<longrightarrow>
         (\<exists>p. fst (get sid hs) = Some p
            \<and> view_state (heap (snd (get sid hs))) p = view_state (heap hs) a
            \<and> (\<forall>x \<in> own (heap (snd (get sid hs))) p. next_addr hs \<le> x)
            \<and> (\<forall>x \<in> own (heap hs) a. x < next_addr hs)
            \<and> nested (heap (snd (get sid hs))) p = nested (heap hs) a
            \<and> (\<forall>h'. (\<forall>x. x \<notin> own (heap (snd (get sid hs))) p
                         \<longrightarrow> h' x = heap (snd (get sid hs)) x)
                  \<longrightarrow> view_state h' a = view_state (heap hs) a)))"
proof (intro conjI allI impI)
  assume "session_addr hs sid = None"
  then show "get sid hs = (None, hs)" by (rule get_absent)
next
  fix a assume sa: "session_addr hs sid = Some a"
  let ?h' = "heap (snd (get sid hs))"
  obtain p where p: "fst (get sid hs) = Some p"
    "\<forall>x < next_addr hs. ?h' x = heap hs x"
    "view_state ?h' p = view_state (heap hs) a"
    "\<forall>x \<in> own ?h' p. next_addr hs \<le> x"
    "nested ?h' p = nested (heap hs) a"
    using get_present [OF assms sa] by blast
  note live = well_formedD(2,3) [OF assms sa]
  have "view_state h' a = view_state (heap hs) a"
    if "\<forall>x. x \<notin> own ?h' p \<longrightarrow> h' x = ?h' x" for h'
  proof (rule view_state_cong)
    fix x assume "x \<in> own (heap hs) a \<union> nested (heap hs) a"
    then have x: "x < next_addr hs" using live by blast
    then have "x \<notin> own ?h' p" using p(4) by auto
    then show "h' x = heap hs x" using that p(2) x by simp
  qed
  then show "\<exists>p. fst (get sid hs) = Some p
            \<and> view_state ?h' p = view_state (heap hs) a
            \<and> (\<forall>x \<in> own ?h' p. next_addr hs \<le> x)
            \<and> (\<forall>x \<in> own (heap hs) a. x < next_addr hs)
            \<and> nested ?h' p = nested (heap hs) a
            \<and> (\<forall>h'. (\<forall>x. x \<notin> own ?h' p \<longrightarrow> h' x = ?h' x)
                  \<longrightarrow> view_state h' a = view_state (heap hs) a)"
    using p live by blast
qed

lemmas heap_eval = one_call_store_def live_record_def read_call_def get_def array_of_def
  spread_def spread_opt_def alloc_def Let_def after_get_def heap_write_def own_def nested_def
  fields_of_def snapshot_obj.truncate_def object_refs_def message_refs_def set_opt_def
  view_state_def view_fields_def view_messages_def view_element_def view_message_def
  view_info_def view_permission_def view_raw_def

lemma one_call_store_well_formed: "well_formed one_call_store"
  by (auto simp: well_formed_def heap_eval split: if_splits)

lemma snapshot_is_shallow_copy_example:
  "well_formed one_call_store
   \<and> session_addr one_call_store ''s'' = Some 0
   \<and> fst (get ''s'' one_call_store) = Some 6
   \<and> after_get 4 = Some (MessageObj read_call)
   \<and> 4 \<in> own after_get 6
   \<and> view_state (heap_write 4 (MessageObj (read_call\<lparr>m_content := (utf16 ''changed''), m_toolInput := None\<rparr>)) after_get) 0
       = view_state (heap one_call_store) 0"
proof -
  have g: "fst (get ''s'' one_call_store) = Some 6" "after_get 4 = Some (MessageObj read_call)"
    "4 \<in> own after_get 6"
    by (simp_all add: heap_eval)
  have w: "\<forall>x. x \<notin> own (heap (snd (get ''s'' one_call_store))) 6 \<longrightarrow>
      heap_write 4 (MessageObj (read_call\<lparr>m_content := (utf16 ''changed''), m_toolInput := None\<rparr>)) after_get x
        = heap (snd (get ''s'' one_call_store)) x"
    by (simp add: heap_eval)
  have s: "session_addr one_call_store ''s'' = Some 0" by (simp add: one_call_store_def)
  from snapshot_is_shallow_copy [OF one_call_store_well_formed, of "''s''"] s g(1)
  have "\<forall>h'. (\<forall>x. x \<notin> own (heap (snd (get ''s'' one_call_store))) 6
                  \<longrightarrow> h' x = heap (snd (get ''s'' one_call_store)) x)
            \<longrightarrow> view_state h' 0 = view_state (heap one_call_store) 0"
    by auto
  then show ?thesis using w g s one_call_store_well_formed by blast
qed

text \<open>
  C8. \<^verbatim>\<open>get\<close> does not return a deep copy, although its comment says that it clones the
  messages to prevent external mutation of internal state. In a store whose session has
  one tool-call message with a tool input object, \<^verbatim>\<open>get\<close> returns the record at address 6,
  the tool input object of the live message (address 3) is among the objects nested in
  that record, and a write to this object changes the tool input that the live record's
  message shows.
\<close>

theorem snapshot_shares_nested_objects:
  "fst (get ''s'' one_call_store) = Some 6
   \<and> 3 \<in> nested after_get 6
   \<and> 3 \<in> nested (heap one_call_store) 0
   \<and> map toolInput (view_messages (heap one_call_store) 1) = [Some ''{x:1}'']
   \<and> map toolInput (view_messages (heap_write 3 (InputObj ''{x:2}'') after_get) 1) = [Some ''{x:2}'']"
  by (simp add: heap_eval)

subsection \<open>The finalized event after an open stream\<close>














subsection \<open>Rounding to a double\<close>

lemma bits_0 [simp]: "bits 0 = 0"
  by (simp add: bits.simps)

lemma bits_pos: "0 < z \<Longrightarrow> bits z = Suc (bits (z div 2))"
  by (subst bits.simps) simp

lemma bits_bounds: "0 < z \<Longrightarrow> 2 ^ (bits z - 1) \<le> z \<and> z < 2 ^ bits z"
proof (induction z rule: less_induct)
  case (less z)
  show ?case
  proof (cases "z div 2 = 0")
    case True
    then have "z = 1" using less.prems by presburger
    then show ?thesis by (simp add: bits_pos)
  next
    case False
    then have p: "0 < z div 2" by simp
    have lt: "z div 2 < z" using less.prems by simp
    from less.IH [OF lt p] have
      ih: "2 ^ (bits (z div 2) - 1) \<le> z div 2" "z div 2 < 2 ^ bits (z div 2)" by simp_all
    have b: "bits (z div 2) = Suc (bits (z div 2) - 1)" using bits_pos [OF p] by simp
    have "2 ^ bits (z div 2) \<le> 2 * (z div 2)"
      using ih(1) by (subst b) simp
    moreover have "z < 2 * 2 ^ bits (z div 2)" using ih(2) by presburger
    ultimately show ?thesis using bits_pos [OF less.prems] by simp
  qed
qed

lemma bits_less: "z < 2 ^ bits z"
  by (cases "z = 0") (simp_all add: bits_bounds)

lemma round_half_even_lower: "0 < q \<Longrightarrow> a * q \<le> p \<Longrightarrow> a \<le> round_half_even p q"
proof -
  assume q: "0 < q" and a: "a * q \<le> p"
  have "a \<le> p div q" using a q by (simp add: less_eq_div_iff_mult_less_eq)
  then show ?thesis by (simp add: round_half_even_def Let_def)
qed

lemma round_half_even_upper: "0 < q \<Longrightarrow> p \<le> a * q \<Longrightarrow> round_half_even p q \<le> a"
proof -
  assume q: "0 < q" and a: "p \<le> a * q"
  have "p div q \<le> (a * q) div q" using a by (rule div_le_mono)
  then have d: "p div q \<le> a" using q by simp
  show ?thesis
  proof (cases "p mod q = 0")
    case True
    then show ?thesis using d q by (simp add: round_half_even_def Let_def)
  next
    case False
    have "p div q * q + p mod q = p" by simp
    then have "p div q * q < p" using False by linarith
    then have "p div q * q < a * q" using a by (rule less_le_trans)
    then have "p div q < a" using q by simp
    then show ?thesis by (simp add: round_half_even_def Let_def)
  qed
qed

text \<open>The units of the result of a rounding that does not overflow.\<close>

lemma round_double_cases:
  fixes z :: nat
  defines "k \<equiv> bits z - 53"
  defines "n \<equiv> round_half_even z (2 ^ k)"
  shows "n \<le> 2 ^ 53" and "0 < k \<Longrightarrow> 2 ^ 52 \<le> n"
    and "round_double s z 1 =
           (if 2045 < (if n = 2 ^ 53 then Suc k else k) then Infinity s
            else Finite s (if n = 2 ^ 53 then 2 ^ 52 else n)
                   (int (if n = 2 ^ 53 then Suc k else k) - 1074))"
proof -
  have "bits z \<le> 53 + k" unfolding k_def by simp
  then have "(2::nat) ^ bits z \<le> 2 ^ (53 + k)" by (intro power_increasing) simp_all
  then have "z < 2 ^ (53 + k)" using bits_less [of z] by linarith
  then have "z \<le> 2 ^ 53 * 2 ^ k" by (simp add: power_add)
  then show "n \<le> 2 ^ 53" unfolding n_def by (intro round_half_even_upper) simp_all
  show "2 ^ 52 \<le> n" if "0 < k"
  proof -
    have b: "bits z = k + 53" using that unfolding k_def by simp
    then have "0 < z" using that by (cases "z = 0") simp_all
    then have "2 ^ (bits z - 1) \<le> z" using bits_bounds by blast
    then have "2 ^ 52 * 2 ^ k \<le> z" unfolding b by (simp add: power_add)
    then show ?thesis unfolding n_def by (intro round_half_even_lower) simp_all
  qed
  show "round_double s z 1 =
           (if 2045 < (if n = 2 ^ 53 then Suc k else k) then Infinity s
            else Finite s (if n = 2 ^ 53 then 2 ^ 52 else n)
                   (int (if n = 2 ^ 53 then Suc k else k) - 1074))"
    by (simp add: round_double_def Let_def k_def n_def)
qed

lemma round_to_units_up:
  fixes z ma ka :: nat
  assumes ma: "ma < 2 ^ 53" and le: "ma * 2 ^ ka \<le> z"
  shows "ma * 2 ^ ka \<le> round_half_even z (2 ^ (bits z - 53)) * 2 ^ (bits z - 53)"
proof (cases "bits z - 53 \<le> ka")
  case True
  then have e: "ma * 2 ^ ka = (ma * 2 ^ (ka - (bits z - 53))) * 2 ^ (bits z - 53)"
    by (simp add: power_add [symmetric])
  have "(ma * 2 ^ (ka - (bits z - 53))) * 2 ^ (bits z - 53) \<le> z"
    using le by (simp only: e)
  then have "ma * 2 ^ (ka - (bits z - 53)) \<le> round_half_even z (2 ^ (bits z - 53))"
    by (intro round_half_even_lower) simp_all
  then have "(ma * 2 ^ (ka - (bits z - 53))) * 2 ^ (bits z - 53)
      \<le> round_half_even z (2 ^ (bits z - 53)) * 2 ^ (bits z - 53)"
    by (intro mult_right_mono) simp_all
  then show ?thesis by (simp only: e)
next
  case False
  define k where "k = bits z - 53"
  have k: "0 < k" "ka < k" using False by (simp_all add: k_def)
  have n: "2 ^ 52 \<le> round_half_even z (2 ^ k)"
    using round_double_cases(2) [of z] k(1) by (simp add: k_def)
  have "(2::nat) ^ ka \<le> 2 ^ (k - 1)" using k(2) by (intro power_increasing) simp_all
  then have "ma * 2 ^ ka \<le> 2 ^ 53 * 2 ^ (k - 1)" using ma by (intro mult_mono) simp_all
  also have "\<dots> = 2 ^ 52 * 2 ^ k" using k(1) by (cases k) simp_all
  also have "\<dots> \<le> round_half_even z (2 ^ k) * 2 ^ k" using n by (intro mult_right_mono) simp_all
  finally show ?thesis by (simp add: k_def)
qed

lemma round_to_units_down:
  fixes z ma ka :: nat
  assumes ma: "ma < 2 ^ 53" and le: "z \<le> ma * 2 ^ ka"
  shows "round_half_even z (2 ^ (bits z - 53)) * 2 ^ (bits z - 53) \<le> ma * 2 ^ ka"
proof (cases "bits z - 53 \<le> ka")
  case True
  then have e: "ma * 2 ^ ka = (ma * 2 ^ (ka - (bits z - 53))) * 2 ^ (bits z - 53)"
    by (simp add: power_add [symmetric])
  have "z \<le> (ma * 2 ^ (ka - (bits z - 53))) * 2 ^ (bits z - 53)"
    using le by (simp only: e)
  then have "round_half_even z (2 ^ (bits z - 53)) \<le> ma * 2 ^ (ka - (bits z - 53))"
    by (intro round_half_even_upper) simp_all
  then have "round_half_even z (2 ^ (bits z - 53)) * 2 ^ (bits z - 53)
      \<le> (ma * 2 ^ (ka - (bits z - 53))) * 2 ^ (bits z - 53)"
    by (intro mult_right_mono) simp_all
  then show ?thesis by (simp only: e)
next
  case False
  define k where "k = bits z - 53"
  have k: "0 < k" "ka < k" using False by (simp_all add: k_def)
  have b: "bits z = k + 53" using k(1) by (simp add: k_def)
  have "0 < z" using b by (cases "z = 0") simp_all
  then have "2 ^ (bits z - 1) \<le> z" using bits_bounds by blast
  then have z: "2 ^ 52 * 2 ^ k \<le> z" unfolding b by (simp add: power_add)
  have "(2::nat) ^ ka \<le> 2 ^ (k - 1)" using k(2) by (intro power_increasing) simp_all
  then have "ma * 2 ^ ka < 2 ^ 53 * 2 ^ (k - 1)"
    using ma by (intro mult_less_le_imp_less) simp_all
  also have "\<dots> = 2 ^ 52 * 2 ^ k" using k(1) by (cases k) simp_all
  finally have "ma * 2 ^ ka < z" using z by linarith
  then show ?thesis using le by simp
qed

text \<open>
  The result of rounding \<open>z\<close> units: an infinity, beyond the largest exponent, or a double
  with as many units as the rounded significand gives.
\<close>

lemma round_double_result:
  fixes z :: nat
  defines "k \<equiv> bits z - 53"
  defines "n \<equiv> round_half_even z (2 ^ k)"
  shows "(round_double s z 1 = Infinity s \<and> 2 ^ 52 * 2 ^ 2046 \<le> n * 2 ^ k)
       \<or> (\<exists>n' e'. round_double s z 1 = Finite s n' e' \<and> is_double (Finite s n' e')
                    \<and> units n' e' = n * 2 ^ k)"
proof -
  note c = round_double_cases [where z = z, folded k_def n_def]
  define k' where "k' = (if n = 2 ^ 53 then Suc k else k)"
  define n' where "n' = (if n = 2 ^ 53 then 2 ^ 52 else n)"
  have r: "round_double s z 1 = (if 2045 < k' then Infinity s else Finite s n' (int k' - 1074))"
    using c(3) by (simp add: k'_def n'_def)
  have u: "n' * 2 ^ k' = n * 2 ^ k" by (simp add: k'_def n'_def)
  have lo: "0 < k' \<Longrightarrow> 2 ^ 52 \<le> n'" using c(2) by (auto simp add: k'_def n'_def split: if_splits)
  have hi: "n' < 2 ^ 53" using c(1) by (auto simp add: n'_def)
  show ?thesis
  proof (cases "2045 < k'")
    case True
    then have "2 ^ 52 \<le> n'" using lo by simp
    moreover have "(2::nat) ^ 2046 \<le> 2 ^ k'" using True by (intro power_increasing) simp_all
    ultimately have "2 ^ 52 * 2 ^ 2046 \<le> n' * 2 ^ k'" by (rule mult_mono) simp_all
    then show ?thesis using True r u by simp
  next
    case False
    have "units n' (int k' - 1074) = n' * 2 ^ k'" by (simp add: units_def)
    moreover have "is_double (Finite s n' (int k' - 1074))"
      using False hi lo by (cases "k' = 0") simp_all
    ultimately show ?thesis using False r u by simp
  qed
qed

lemma is_double_units:
  assumes "is_double (Finite s m e)"
  shows "m < 2 ^ 53" and "units m e = m * 2 ^ nat (e + 1074)" and "nat (e + 1074) \<le> 2045"
  using assms by (auto simp add: units_def)

lemma round_double_is_double: "is_double (round_double s z 1)"
  using round_double_result [of s z] by auto

lemma round_double_up:
  assumes "is_double (Finite t m e)" and "units m e \<le> z"
  shows "round_double s z 1 = Infinity s
       \<or> (\<exists>n' e'. round_double s z 1 = Finite s n' e' \<and> is_double (Finite s n' e')
                    \<and> units m e \<le> units n' e')"
  using round_double_result [of s z]
    round_to_units_up [of m "nat (e + 1074)" z] is_double_units [OF assms(1)] assms(2)
  by auto

lemma round_double_down:
  assumes "is_double (Finite t m e)" and "z \<le> units m e"
  shows "\<exists>n' e'. round_double s z 1 = Finite s n' e' \<and> is_double (Finite s n' e')
                    \<and> units n' e' \<le> units m e"
proof -
  have d: "round_half_even z (2 ^ (bits z - 53)) * 2 ^ (bits z - 53) \<le> m * 2 ^ nat (e + 1074)"
    using round_to_units_down [of m z "nat (e + 1074)"] is_double_units [OF assms(1)] assms(2)
    by simp
  have "(2::nat) ^ nat (e + 1074) \<le> 2 ^ 2045"
    using is_double_units(3) [OF assms(1)] by (intro power_increasing) simp_all
  then have "m * 2 ^ nat (e + 1074) < 2 ^ 53 * 2 ^ 2045"
    using is_double_units(1) [OF assms(1)] by (intro mult_less_le_imp_less) simp_all
  also have "\<dots> = (2::nat) ^ 52 * 2 ^ 2046" by (simp only: power_add [symmetric]) simp
  finally have "\<not> 2 ^ 52 * 2 ^ 2046 \<le> round_half_even z (2 ^ (bits z - 53)) * 2 ^ (bits z - 53)"
    using d by linarith
  then show ?thesis
    using round_double_result [of s z] d is_double_units(2) [OF assms(1)] by auto
qed

subsection \<open>Adding an amount that is not negative\<close>

lemma signed_units_simps:
  "signed_units False m e = int (units m e)" "signed_units True m e = - int (units m e)"
  by (simp_all add: signed_units_def)

lemma js_add_finite_nonnegative:
  assumes a: "is_double (Finite s m e)" and b: "is_double (Finite t n f)" "n = 0 \<or> \<not> t"
  shows "js_le (Finite s m e) (js_add (Finite s m e) (Finite t n f))
       \<and> is_double (js_add (Finite s m e) (Finite t n f))
       \<and> js_add (Finite s m e) (Finite t n f) \<noteq> NaN"
proof -
  define A where "A = signed_units s m e"
  define B where "B = signed_units t n f"
  define z where "z = A + B"
  have B: "0 \<le> B" using b(2) by (auto simp add: B_def signed_units_def units_def)
  have r: "js_add (Finite s m e) (Finite t n f) =
             (if z = 0 then Finite (s \<and> t) 0 (- 1074) else round_double (z < 0) (nat \<bar>z\<bar>) 1)"
    by (simp add: z_def A_def B_def Let_def)
  consider "z = 0" | "0 < z" | "z < 0" by linarith
  then show ?thesis
  proof cases
    case 1
    then have "A \<le> 0" using B by (simp add: z_def)
    moreover have "signed_units (s \<and> t) 0 (- 1074) = 0" by (simp add: signed_units_def units_def)
    ultimately show ?thesis unfolding r using 1 by (simp add: A_def)
  next
    case 2
    then have r2: "js_add (Finite s m e) (Finite t n f) = round_double False (nat z) 1"
      using r by simp
    show ?thesis
    proof (cases "A \<le> 0")
      case True
      have "\<And>n' e'. A \<le> signed_units False n' e'" using True by (simp add: signed_units_def)
      then show ?thesis
        unfolding r2 using round_double_result [of False "nat z"] by (auto simp add: A_def [symmetric])
    next
      case False
      then have s: "\<not> s" "A = int (units m e)" by (auto simp add: A_def signed_units_def split: if_splits)
      then have "units m e \<le> nat z" using B by (simp add: z_def)
      from round_double_up [OF a this, of False] show ?thesis
        unfolding r2 using s by (auto simp add: signed_units_def)
    qed
  next
    case 3
    then have r3: "js_add (Finite s m e) (Finite t n f) = round_double True (nat (- z)) 1"
      using r by simp
    have "A < 0" using 3 B by (simp add: z_def)
    then have s: "s" "A = - int (units m e)" by (auto simp add: A_def signed_units_def split: if_splits)
    then have "nat (- z) \<le> units m e" using B by (simp add: z_def)
    from round_double_down [OF a this, of True] show ?thesis
      unfolding r3 using s by (auto simp add: signed_units_def)
  qed
qed

text \<open>
  Adding a finite double that is not negative to a number other than NaN gives a number
  other than NaN that is not below it.
\<close>

lemma js_add_nonnegative:
  assumes "is_double a" "a \<noteq> NaN" "nonnegative b"
  shows "js_le a (js_add a b) \<and> is_double (js_add a b) \<and> js_add a b \<noteq> NaN"
proof (cases b)
  case (Finite t n f)
  then have b: "is_double (Finite t n f)" "n = 0 \<or> \<not> t" using assms(3) by simp_all
  show ?thesis
  proof (cases a)
    case NaN
    then show ?thesis using assms(2) by simp
  next
    case (Infinity s)
    then show ?thesis using Finite by simp
  next
    case (Finite s m e)
    then show ?thesis
      using js_add_finite_nonnegative [OF _ b, of s m e] assms(1) \<open>b = Finite t n f\<close> by simp
  qed
qed (use assms(3) in simp_all)

lemma js_le_refl: "a \<noteq> NaN \<Longrightarrow> js_le a a"
  by (cases a) simp_all

lemma js_le_trans: "js_le a b \<Longrightarrow> js_le b c \<Longrightarrow> js_le a c"
  by (cases a; cases b; cases c) auto

subsection \<open>Rounding at a scale\<close>

lemma bits_unique:
  assumes "2 ^ l \<le> x" "x < 2 ^ Suc l"
  shows "bits x = Suc l"
proof -
  have x: "0 < x" using assms(1) by (metis gr0I not_le zero_less_numeral zero_less_power)
  from bits_bounds [OF x] have b: "2 ^ (bits x - 1) \<le> x" "x < 2 ^ bits x" by simp_all
  have "\<not> bits x \<le> l"
  proof
    assume "bits x \<le> l"
    then have "(2::nat) ^ bits x \<le> 2 ^ l" by (intro power_increasing) simp_all
    then show False using b(2) assms(1) by linarith
  qed
  moreover have "\<not> Suc (Suc l) \<le> bits x"
  proof
    assume "Suc (Suc l) \<le> bits x"
    then have "(2::nat) ^ Suc l \<le> 2 ^ (bits x - 1)" by (intro power_increasing) simp_all
    then show False using b(1) assms(2) by linarith
  qed
  ultimately show ?thesis by simp
qed

lemma bits_scaled_quotient:
  assumes q: "0 < q" and x: "0 < p div q"
  shows "bits ((p * 2 ^ j) div q) = bits (p div q) + j"
proof -
  define l where "l = bits (p div q) - 1"
  from bits_bounds [OF x] have b: "2 ^ l \<le> p div q" "p div q < 2 ^ Suc l"
    using x by (simp_all add: l_def bits_pos)
  have bl: "bits (p div q) = Suc l" using b by (rule bits_unique)
  define u where "u = p div q + 1"
  have "p div q * q \<le> p" by simp
  then have "(p div q * q) * 2 ^ j \<le> p * 2 ^ j" by (rule mult_right_mono) simp
  then have "(p div q * 2 ^ j) * q \<le> p * 2 ^ j" by (simp only: mult.assoc mult.commute [of q])
  then have lo: "p div q * 2 ^ j \<le> (p * 2 ^ j) div q"
    using q by (simp add: less_eq_div_iff_mult_less_eq)
  have "p < u * q" unfolding u_def
    using q by (metis Suc_eq_plus1 dividend_less_div_times mult.commute mult_Suc)
  then have "p * 2 ^ j < (u * q) * 2 ^ j" by simp
  then have "p * 2 ^ j < (u * 2 ^ j) * q" by (simp only: mult.assoc mult.commute [of q])
  then have "(p * 2 ^ j) div q < u * 2 ^ j"
    using q by (simp add: div_less_iff_less_mult)
  then have hi: "(p * 2 ^ j) div q < (p div q + 1) * 2 ^ j" by (simp only: u_def)
  have "2 ^ (l + j) \<le> p div q * 2 ^ j" using b(1) by (simp add: power_add)
  then have 1: "2 ^ (l + j) \<le> (p * 2 ^ j) div q" using lo by linarith
  have "(p div q + 1) * 2 ^ j \<le> 2 ^ Suc l * 2 ^ j" using b(2) by (intro mult_right_mono) simp_all
  then have 2: "(p * 2 ^ j) div q < 2 ^ Suc (l + j)" using hi by (simp add: power_add)
  show ?thesis using bits_unique [OF 1 2] bl by simp
qed

lemma round_half_even_scaled:
  "0 < c \<Longrightarrow> round_half_even (p * c) (q * c) = round_half_even p q"
  by (simp add: round_half_even_def Let_def)

text \<open>
  Rounding \<open>p * 2 ^ j / q\<close> units, when the quotient \<open>p / q\<close> has 53 digits or more before
  the point, is rounding \<open>p / q\<close> with the exponent raised by \<open>j\<close>.
\<close>

lemma round_double_scaled:
  assumes q: "0 < q" and b: "53 \<le> bits (p div q)"
  shows "round_double s (p * 2 ^ j) q =
     (let k = bits (p div q) - 53;
          n = round_half_even p (q * 2 ^ k);
          k' = (if n = 2 ^ 53 then Suc k else k);
          n' = (if n = 2 ^ 53 then 2 ^ 52 else n)
      in if 2045 < k' + j then Infinity s else Finite s n' (int (k' + j) - 1074))"
proof -
  have x: "0 < p div q" using b by (cases "p div q = 0") simp_all
  have bs: "bits ((p * 2 ^ j) div q) - 53 = (bits (p div q) - 53) + j"
    using bits_scaled_quotient [OF q x, of j] b by simp
  have "round_half_even (p * 2 ^ j) (q * 2 ^ ((bits (p div q) - 53) + j))
      = round_half_even (p * 2 ^ j) ((q * 2 ^ (bits (p div q) - 53)) * 2 ^ j)"
    by (simp add: power_add mult.assoc)
  also have "\<dots> = round_half_even p (q * 2 ^ (bits (p div q) - 53))"
    by (rule round_half_even_scaled) simp
  finally show ?thesis
    unfolding round_double_def bs by (simp add: Let_def)
qed

lemma decimal_scaled:
  assumes "j \<le> 1074" and "53 \<le> bits ((d * 2 ^ (1074 - j)) div 10 ^ k)"
  shows "decimal d k = round_double False ((d * 2 ^ (1074 - j)) * 2 ^ j) (10 ^ k)"
proof -
  have "(2::nat) ^ 1074 = 2 ^ (1074 - j) * 2 ^ j"
    using assms(1) by (simp only: power_add [symmetric]) simp
  then show ?thesis unfolding decimal_def by (simp only: mult.assoc)
qed

lemma units_scaled:
  assumes "int j \<le> e + 1074"
  shows "units m e = (m * 2 ^ (nat (e + 1074) - j)) * 2 ^ j"
proof -
  have "nat (e + 1074) = (nat (e + 1074) - j) + j" using assms by simp
  then have "(2::nat) ^ nat (e + 1074) = 2 ^ (nat (e + 1074) - j) * 2 ^ j"
    by (metis power_add)
  then show ?thesis unfolding units_def by (simp only: mult.assoc)
qed

text \<open>The sum of two doubles that are not negative, computed at the scale \<open>2 ^ j\<close> units.\<close>

lemma js_add_scaled:
  assumes "int j \<le> e + 1074" "int j \<le> f + 1074"
    and "0 < m * 2 ^ (nat (e + 1074) - j) + n * 2 ^ (nat (f + 1074) - j)"
  shows "js_add (Finite False m e) (Finite False n f) =
     round_double False ((m * 2 ^ (nat (e + 1074) - j) + n * 2 ^ (nat (f + 1074) - j)) * 2 ^ j) 1"
proof -
  define Z where "Z = units m e + units n f"
  have e: "Z = (m * 2 ^ (nat (e + 1074) - j) + n * 2 ^ (nat (f + 1074) - j)) * 2 ^ j"
    unfolding Z_def
    by (simp only: units_scaled [OF assms(1)] units_scaled [OF assms(2)] add_mult_distrib)
  have p: "0 < Z" unfolding e using assms(3) by simp
  have z: "signed_units False m e + signed_units False n f = int Z"
    by (simp add: signed_units_def Z_def)
  have "js_add (Finite False m e) (Finite False n f) = round_double False Z 1"
    unfolding js_add.simps z Let_def using p by simp
  then show ?thesis by (simp only: e)
qed

subsection \<open>Decimal literals and their sums\<close>

lemma bits_numeral: "bits (numeral w) = 1 + bits (numeral w div 2)"
  by (subst bits.simps) simp

lemma bits_1: "bits 1 = 1" "bits (Suc 0) = 1"
  by (simp_all add: bits.simps)

lemmas number_eval = bits_numeral bits_1 round_half_even_def Let_def

lemma decimal_value:
  assumes "j \<le> 1074" and "53 \<le> bits ((d * 2 ^ (1074 - j)) div 10 ^ k)"
  shows "decimal d k =
     (let b = bits ((d * 2 ^ (1074 - j)) div 10 ^ k) - 53;
          n = round_half_even (d * 2 ^ (1074 - j)) (10 ^ k * 2 ^ b);
          b' = (if n = 2 ^ 53 then Suc b else b);
          n' = (if n = 2 ^ 53 then 2 ^ 52 else n)
      in if 2045 < b' + j then Infinity False else Finite False n' (int (b' + j) - 1074))"
  unfolding decimal_scaled [OF assms]
  by (rule round_double_scaled [OF _ assms(2)]) simp

lemma js_add_value:
  assumes "int j \<le> e + 1074" "int j \<le> f + 1074"
    and "53 \<le> bits (m * 2 ^ (nat (e + 1074) - j) + n * 2 ^ (nat (f + 1074) - j))"
  shows "js_add (Finite False m e) (Finite False n f) =
     (let p = m * 2 ^ (nat (e + 1074) - j) + n * 2 ^ (nat (f + 1074) - j);
          b = bits p - 53;
          r = round_half_even p (2 ^ b);
          b' = (if r = 2 ^ 53 then Suc b else b);
          r' = (if r = 2 ^ 53 then 2 ^ 52 else r)
      in if 2045 < b' + j then Infinity False else Finite False r' (int (b' + j) - 1074))"
proof -
  define p where "p = m * 2 ^ (nat (e + 1074) - j) + n * 2 ^ (nat (f + 1074) - j)"
  have b: "53 \<le> bits (p div 1)" using assms(3) by (simp add: p_def)
  then have "0 < p" by (cases "p = 0") simp_all
  then have "js_add (Finite False m e) (Finite False n f) = round_double False (p * 2 ^ j) 1"
    unfolding p_def by (rule js_add_scaled [OF assms(1,2)])
  also have "\<dots> = (let b = bits (p div 1) - 53;
          r = round_half_even p (1 * 2 ^ b);
          b' = (if r = 2 ^ 53 then Suc b else b);
          r' = (if r = 2 ^ 53 then 2 ^ 52 else r)
      in if 2045 < b' + j then Infinity False else Finite False r' (int (b' + j) - 1074))"
    by (rule round_double_scaled [OF _ b]) simp
  finally show ?thesis by (simp add: p_def Let_def)
qed

text \<open>Rounding the units of a double gives the double; adding a double to zero gives it.\<close>

lemma round_double_exact:
  assumes "is_double (Finite s m e)" and "0 < m"
  shows "round_double s (units m e) 1 = Finite s m e"
proof (cases "2 ^ 52 \<le> m")
  case True
  have m: "m < 2 ^ Suc 52" using assms(1) by simp
  have b: "bits m = 53" using bits_unique [OF True m] by simp
  then have b1: "53 \<le> bits (m div 1)" by simp
  have "round_double s (m * 2 ^ nat (e + 1074)) 1 = Finite s m e"
    using assms(1) by (subst round_double_scaled [OF _ b1]) (auto simp add: b round_half_even_def)
  then show ?thesis by (simp add: units_def)
next
  case False
  then have e: "e = - 1074" and m: "m < 2 ^ 52" using assms(1) by simp_all
  have "bits m \<le> 52"
  proof (rule ccontr)
    assume "\<not> bits m \<le> 52"
    then have "(2::nat) ^ 52 \<le> 2 ^ (bits m - 1)" by (intro power_increasing) simp_all
    then show False using bits_bounds [OF assms(2)] m by linarith
  qed
  then have "bits m - 53 = 0" by simp
  then show ?thesis using m by (simp add: units_def e round_double_def round_half_even_def)
qed

lemma js_add_zero_left:
  assumes "is_double (Finite s m e)" and "0 < m"
  shows "js_add pos_zero (Finite s m e) = Finite s m e"
proof -
  define U where "U = units m e"
  have u: "0 < U" using assms(2) by (simp add: U_def units_def)
  have z: "signed_units False 0 (- 1074) + signed_units s m e = (if s then - int U else int U)"
    by (simp add: signed_units_def units_def U_def)
  have "js_add pos_zero (Finite s m e) = round_double s U 1"
    unfolding pos_zero_def js_add.simps z Let_def using u by (cases s) simp_all
  then show ?thesis using round_double_exact [OF assms] by (simp add: U_def)
qed

lemma decimal_0_02: "decimal 2 2 = Finite False 5764607523034235 (- 58)"
  by (subst decimal_value [where j = 1016]) (simp_all add: number_eval)

lemma decimal_0_03: "decimal 3 2 = Finite False 8646911284551352 (- 58)"
  by (subst decimal_value [where j = 1016]) (simp_all add: number_eval)

lemma decimal_0_05: "decimal 5 2 = Finite False 7205759403792794 (- 57)"
  by (subst decimal_value [where j = 1016]) (simp_all add: number_eval)

lemma decimal_0_1: "decimal 1 1 = Finite False 7205759403792794 (- 56)"
  by (subst decimal_value [where j = 1016]) (simp_all add: number_eval)

lemma decimal_0_2: "decimal 2 1 = Finite False 7205759403792794 (- 55)"
  by (subst decimal_value [where j = 1016]) (simp_all add: number_eval)

lemma decimal_0_3: "decimal 3 1 = Finite False 5404319552844595 (- 54)"
  by (subst decimal_value [where j = 1016]) (simp_all add: number_eval)

lemma decimal_1: "decimal 1 0 = Finite False 4503599627370496 (- 52)"
  by (subst decimal_value [where j = 1016]) (simp_all add: number_eval)

text \<open>In doubles \<open>0.02 + 0.03\<close> is \<open>0.05\<close>, and \<open>0.1 + 0.2\<close> is not \<open>0.3\<close>.\<close>

lemma cents_sum: "js_add (js_add pos_zero (decimal 2 2)) (decimal 3 2) = decimal 5 2"
  unfolding decimal_0_02 decimal_0_03 decimal_0_05
  by (subst js_add_zero_left, simp, simp, subst js_add_value [where j = 1016])
     (simp_all add: number_eval)

lemma tenths_sum:
  "js_add (decimal 1 1) (decimal 2 1) = decimal 30000000000000004 17"
  "js_add (decimal 1 1) (decimal 2 1) \<noteq> decimal 3 1"
proof -
  have d: "decimal 30000000000000004 17 = Finite False 5404319552844596 (- 54)"
    by (subst decimal_value [where j = 1016]) (simp_all add: number_eval)
  have s: "js_add (decimal 1 1) (decimal 2 1) = Finite False 5404319552844596 (- 54)"
    unfolding decimal_0_1 decimal_0_2
    by (subst js_add_value [where j = 1016]) (simp_all add: number_eval)
  show "js_add (decimal 1 1) (decimal 2 1) = decimal 30000000000000004 17"
    using s d by simp
  show "js_add (decimal 1 1) (decimal 2 1) \<noteq> decimal 3 1"
    using s decimal_0_3 by simp
qed

subsection \<open>Cost accumulation\<close>

lemma handleStreamEvent_totalCost:
  "totalCost (fst (handleStreamEvent now cnt e s)) = totalCost s"
  by (simp add: handleStreamEvent_def Let_def split: stream_evt.splits option.splits delta.splits)

lemma push_tool_use_totalCost: "totalCost (push_tool_use t b s) = totalCost s"
  by (simp add: push_tool_use_def Let_def)

lemma push_tool_uses_totalCost: "totalCost (push_tool_uses now k bs s) = totalCost s"
  by (induction bs arbitrary: k s) (simp_all add: push_tool_use_totalCost)

lemma reconcile_assistant_totalCost: "totalCost (reconcile_assistant t e s) = totalCost s"
  by (simp add: reconcile_assistant_def Let_def split: option.splits)

lemma handleTopLevel_totalCost:
  "totalCost (fst (handleTopLevel now sid cnt b s)) =
     add_carried (totalCost s)
       (case b of ResultEvt r \<Rightarrow> Some (case total_cost_usd r of None \<Rightarrow> pos_zero | Some c \<Rightarrow> c)
        | _ \<Rightarrow> None)"
  by (cases b)
     (simp_all add: handleTopLevel_def Let_def handleStreamEvent_totalCost
        push_tool_uses_totalCost reconcile_assistant_totalCost split_beta split: option.splits)

lemma fold_append_step_totalCost:
  "totalCost (fold (\<lambda>blk s'. s'\<lparr>messages := map (append_step t blk) (messages s')\<rparr>) bs s) = totalCost s"
  by (induction bs arbitrary: s) simp_all

lemma handleSubagentEvent_totalCost: "totalCost (handleSubagentEvent s b p) = totalCost s"
  by (simp add: handleSubagentEvent_def fold_append_step_totalCost split: option.splits claude_body.splits)

lemma closePending_totalCost: "totalCost (closePendingACPTools s) = totalCost s"
  by (simp add: closePendingACPTools_def)

lemma ensure_totalCost: "totalCost (fst (ensureACPStreamingMsg now cnt s)) = totalCost s"
  by (simp add: ensureACPStreamingMsg_def Let_def)

lemma finalize_totalCost: "totalCost (finalizeACPStreamingMsg s) = totalCost s"
  by (simp add: finalizeACPStreamingMsg_def split: option.splits)

lemma handleACPUpdate_totalCost:
  "totalCost (fst (handleACPUpdate now cnt u s)) =
     add_carried (totalCost s) (case u of UsageUpdate c \<Rightarrow> c | _ \<Rightarrow> None)"
  by (cases u)
     (simp_all add: handleACPUpdate_def Let_def split_beta closePending_totalCost finalize_totalCost
        ensure_totalCost split: option.splits)

lemma total_of_update:
  "total_of sid (st\<lparr>sessions := (sessions st)(x \<mapsto> s)\<rparr>)
     = (if x = sid then totalCost s else total_of sid st)"
  by (simp add: total_of_def getOrCreate_def)

lemma total_of_ingest: "total_of sid (ingest i st) = add_carried (total_of sid st) (carried_cost sid i)"
proof (cases i)
  case (ProtocolA now ev)
  show ?thesis
  proof (cases "ev_sessionId ev")
    case None
    then show ?thesis using ProtocolA by (simp add: handleEvent_def carried_cost_def)
  next
    case (Some x)
    then show ?thesis
      using ProtocolA
      by (auto simp add: handleEvent_def carried_cost_def total_of_def Let_def split_beta
          getOrCreate_def handleSubagentEvent_totalCost handleTopLevel_totalCost
          split: claude_body.splits)
  qed
next
  case (ProtocolB now ev)
  show ?thesis
  proof (cases "acp_sessionId ev")
    case None
    then show ?thesis using ProtocolB by (simp add: handleACPEvent_def carried_cost_def)
  next
    case (Some x)
    then show ?thesis
      using ProtocolB
      by (auto simp add: handleACPEvent_def carried_cost_def total_of_def Let_def split_beta
          getOrCreate_def handleACPUpdate_totalCost split: acp_update.splits)
  qed
next
  case (TurnComplete x)
  then show ?thesis
    by (simp add: handleACPTurnComplete_def carried_cost_def total_of_def getOrCreate_def
        closePending_totalCost finalize_totalCost split: option.splits)
qed

lemma total_of_apply_op:
  "\<not> recreates sid opn \<Longrightarrow>
   total_of sid (apply_op opn st) = add_carried (total_of sid st) (charged sid opn)"
proof (cases opn)
  case (Ingest i)
  then show ?thesis by (simp add: total_of_ingest)
next
  case (SetPermission x p raw)
  then show ?thesis by (simp add: setPermission_def total_of_def getOrCreate_def)
next
  case (Seed x state)
  assume "\<not> recreates sid opn"
  then show ?thesis using Seed by (simp add: initFromState_def total_of_def getOrCreate_def)
next
  case (MarkDisconnected x)
  then show ?thesis
    by (simp add: markDisconnected_def total_of_def getOrCreate_def split: option.splits)
next
  case (Consume x)
  assume "\<not> recreates sid opn"
  then show ?thesis using Consume
    by (simp add: consume_def total_of_def getOrCreate_def split: option.splits)
next
  case (Delete x)
  assume "\<not> recreates sid opn"
  then show ?thesis using Delete by (simp add: delete_def total_of_def getOrCreate_def)
qed

lemma total_of_run:
  "\<not> list_ex (recreates sid) ops \<Longrightarrow>
   total_of sid (run ops st) = foldl add_carried (total_of sid st) (map (charged sid) ops)"
  unfolding run_def
  by (induction ops arbitrary: st) (simp_all add: total_of_apply_op)

lemma add_carried_nonnegative:
  assumes "is_double t" "t \<noteq> NaN" "case c of None \<Rightarrow> True | Some a \<Rightarrow> nonnegative a"
  shows "js_le t (add_carried t c) \<and> is_double (add_carried t c) \<and> add_carried t c \<noteq> NaN"
  using assms js_add_nonnegative [of t] by (cases c) (simp_all add: js_le_refl)

lemma foldl_add_carried_nonnegative:
  assumes "is_double t" "t \<noteq> NaN"
    and "list_all (\<lambda>c. case c of None \<Rightarrow> True | Some a \<Rightarrow> nonnegative a) cs"
  shows "js_le t (foldl add_carried t cs) \<and> is_double (foldl add_carried t cs)
       \<and> foldl add_carried t cs \<noteq> NaN"
  using assms
proof (induction cs arbitrary: t)
  case Nil
  then show ?case by (simp add: js_le_refl)
next
  case (Cons c cs)
  from Cons.prems have c: "case c of None \<Rightarrow> True | Some a \<Rightarrow> nonnegative a"
    and cs: "list_all (\<lambda>c. case c of None \<Rightarrow> True | Some a \<Rightarrow> nonnegative a) cs" by simp_all
  note a = add_carried_nonnegative [OF Cons.prems(1,2) c]
  from Cons.IH [OF _ _ cs, of "add_carried t c"] a
  show ?case by (auto intro: js_le_trans)
qed

lemma run_append: "run (xs @ ys) st = run ys (run xs st)"
  by (simp add: run_def)

lemma take_split: "i \<le> j \<Longrightarrow> take j ops = take i ops @ drop i (take j ops)"
  by (metis append_take_drop_id min.absorb1 take_take)

lemma no_recreation_sublist:
  "\<not> list_ex (recreates sid) ops \<Longrightarrow> set xs \<subseteq> set ops \<Longrightarrow> \<not> list_ex (recreates sid) xs"
  by (auto simp add: list_ex_iff)

lemma nonnegative_costs_sublist:
  "nonnegative_costs sid ops \<Longrightarrow> set xs \<subseteq> set ops \<Longrightarrow> nonnegative_costs sid xs"
  by (auto simp add: nonnegative_costs_def list_all_iff)

lemma total_of_run_nonnegative:
  assumes "\<not> list_ex (recreates sid) ops" "nonnegative_costs sid ops"
    and "is_double (total_of sid st)" "total_of sid st \<noteq> NaN"
  shows "js_le (total_of sid st) (total_of sid (run ops st))
       \<and> is_double (total_of sid (run ops st)) \<and> total_of sid (run ops st) \<noteq> NaN"
proof -
  have "list_all (\<lambda>c. case c of None \<Rightarrow> True | Some a \<Rightarrow> nonnegative a) (map (charged sid) ops)"
    using assms(2) by (simp add: nonnegative_costs_def list_all_iff)
  then show ?thesis
    unfolding total_of_run [OF assms(1)]
    using foldl_add_carried_nonnegative [OF assms(3,4)] by blast
qed

text \<open>
  C9 (amended). \<open>totalCost\<close> accumulates additively, in the arithmetic of doubles: within
  a session's lifetime (any operations of the store other than a consume, a delete or a
  seed of that session) each top-level turn-result adds the turn's cost, zero when
  absent, each usage-update adds the amount it carries, and nothing else changes the
  total. When the total is a number and every carried amount is a finite double that is
  not negative, the total stays a number and never decreases: after \<open>i\<close> operations it is
  at most what it is after \<open>j \<ge> i\<close> operations. A delete or a consume resets it to zero
  and a seed to the total of the seeded state. The store adds the carried amount as it
  is, so a negative amount lowers the total.
\<close>

theorem totalCost_accumulates:
  assumes "\<not> list_ex (recreates sid) ops"
  shows "total_of sid (run ops st) = foldl add_carried (total_of sid st) (map (charged sid) ops)
     \<and> (is_double (total_of sid st) \<and> total_of sid st \<noteq> NaN \<and> nonnegative_costs sid ops
          \<and> i \<le> j \<longrightarrow>
          js_le (total_of sid (run (take i ops) st)) (total_of sid (run (take j ops) st))
          \<and> is_double (total_of sid (run ops st)) \<and> total_of sid (run ops st) \<noteq> NaN)
     \<and> total_of sid (apply_op (Delete sid) (run ops st)) = pos_zero
     \<and> total_of sid (apply_op (Consume sid) (run ops st)) = pos_zero
     \<and> total_of sid (apply_op (Seed sid state) (run ops st)) = totalCost state"
proof -
  have "js_le (total_of sid (run (take i ops) st)) (total_of sid (run (take j ops) st))
          \<and> is_double (total_of sid (run ops st)) \<and> total_of sid (run ops st) \<noteq> NaN"
    if d: "is_double (total_of sid st)" "total_of sid st \<noteq> NaN"
      and n: "nonnegative_costs sid ops" and ij: "i \<le> j"
  proof -
    let ?mid = "run (take i ops) st"
    have r1: "\<not> list_ex (recreates sid) (take i ops)"
      using assms set_take_subset by (rule no_recreation_sublist)
    have n1: "nonnegative_costs sid (take i ops)"
      using n set_take_subset by (rule nonnegative_costs_sublist)
    have 1: "is_double (total_of sid ?mid)" "total_of sid ?mid \<noteq> NaN"
      using total_of_run_nonnegative [OF r1 n1 d] by simp_all
    have s: "set (drop i (take j ops)) \<subseteq> set ops"
      by (meson set_drop_subset set_take_subset subset_trans)
    have r2: "\<not> list_ex (recreates sid) (drop i (take j ops))"
      using assms s by (rule no_recreation_sublist)
    have n2: "nonnegative_costs sid (drop i (take j ops))"
      using n s by (rule nonnegative_costs_sublist)
    have "js_le (total_of sid ?mid) (total_of sid (run (drop i (take j ops)) ?mid))"
      using total_of_run_nonnegative [OF r2 n2 1] by simp
    then have "js_le (total_of sid ?mid) (total_of sid (run (take j ops) st))"
      using take_split [OF ij, of ops] by (metis run_append)
    then show ?thesis using total_of_run_nonnegative [OF assms n d] by simp
  qed
  moreover have "total_of sid (apply_op (Delete sid) (run ops st)) = pos_zero"
    by (simp add: delete_def total_of_def getOrCreate_def empty_state_def)
  moreover have "total_of sid (apply_op (Consume sid) (run ops st)) = pos_zero"
    by (simp add: consume_def total_of_def getOrCreate_def empty_state_def split: option.splits)
  moreover have "total_of sid (apply_op (Seed sid state) (run ops st)) = totalCost state"
    by (simp add: initFromState_def total_of_def getOrCreate_def)
  ultimately show ?thesis using total_of_run [OF assms, of st] by blast
qed

lemma js_le_zero_negative: "0 < n \<Longrightarrow> \<not> js_le pos_zero (Finite True n f)"
proof -
  assume "0 < n"
  then have "0 < units n f" by (simp add: units_def)
  moreover have "units 0 (- 1074) = 0" by (simp add: units_def)
  ultimately show ?thesis by (simp add: pos_zero_def signed_units_def)
qed

lemmas usage_eval = usage_def two_usages_def run_def handleACPEvent_def handleACPUpdate_def
  acpEv_def total_of_def getOrCreate_def empty_store_def empty_state_def carried_cost_def
  nonnegative_costs_def

text \<open>
  The example of the specification: usage-updates with the amounts \<open>0.02\<close> and \<open>0.03\<close>
  on a fresh session give the total \<open>0.02\<close> and then the total \<open>0.05\<close>.
\<close>

theorem totalCost_accumulates_witness:
  "\<not> list_ex (recreates ''s'') two_usages
   \<and> is_double (total_of ''s'' empty_store) \<and> total_of ''s'' empty_store \<noteq> NaN
   \<and> nonnegative_costs ''s'' two_usages \<and> (1::nat) \<le> 2
   \<and> total_of ''s'' (run (take 1 two_usages) empty_store) = decimal 2 2
   \<and> total_of ''s'' (run (take 2 two_usages) empty_store) = decimal 5 2
   \<and> total_of ''s'' (run two_usages empty_store) = decimal 5 2
   \<and> js_le (total_of ''s'' (run (take 1 two_usages) empty_store))
           (total_of ''s'' (run (take 2 two_usages) empty_store))"
proof -
  have h: "\<not> list_ex (recreates ''s'') two_usages" by (simp add: usage_eval)
  have d: "is_double (total_of ''s'' empty_store) \<and> total_of ''s'' empty_store \<noteq> NaN"
    by (simp add: usage_eval pos_zero_def)
  have n: "nonnegative_costs ''s'' two_usages"
    by (simp add: usage_eval decimal_0_02 decimal_0_03)
  have z: "js_add pos_zero (decimal 2 2) = decimal 2 2"
    unfolding decimal_0_02 by (rule js_add_zero_left) simp_all
  have t1: "total_of ''s'' (run (take 1 two_usages) empty_store) = decimal 2 2"
    using z by (simp add: usage_eval)
  have t2: "total_of ''s'' (run (take 2 two_usages) empty_store) = decimal 5 2"
    "total_of ''s'' (run two_usages empty_store) = decimal 5 2"
    using cents_sum by (simp_all add: usage_eval)
  from totalCost_accumulates [OF h, of empty_store 1 2] d n
  have "js_le (total_of ''s'' (run (take 1 two_usages) empty_store))
              (total_of ''s'' (run (take 2 two_usages) empty_store))"
    by simp
  with h d n t1 t2 show ?thesis by simp
qed

text \<open>A usage-update carrying the amount \<open>-1\<close> lowers the total of a fresh session.\<close>

theorem totalCost_decreases_counterexample:
  "total_of ''s'' empty_store = pos_zero
   \<and> total_of ''s'' (run [usage ''s'' (negated (decimal 1 0))] empty_store) = negated (decimal 1 0)
   \<and> \<not> js_le (total_of ''s'' empty_store)
            (total_of ''s'' (run [usage ''s'' (negated (decimal 1 0))] empty_store))"
proof -
  have "js_add pos_zero (negated (decimal 1 0)) = negated (decimal 1 0)"
    unfolding decimal_1 by (simp, rule js_add_zero_left) simp_all
  then show ?thesis
    unfolding decimal_1 by (simp add: usage_eval js_le_zero_negative)
qed


end
